theory Spec2Isabelle
  imports Main
begin

section \<open>Errors and vendor results\<close>

text \<open>
  A JavaScript exception is a value with a \<open>message\<close>. The model keeps two kinds apart:
  errors thrown on the vendor side (\<open>emailConfig.sendEmail\<close>, \<open>smsConfig.sendSms\<close>) and
  errors thrown by the Prisma client (a violated foreign key, a row that is not found).
\<close>

datatype error = VendorError string | StoreError string

fun error_message :: "error \<Rightarrow> string" where
  "error_message (VendorError m) = m"
| "error_message (StoreError m) = m"

text \<open>What \<open>emailConfig.sendEmail\<close> and \<open>smsConfig.sendSms\<close> resolve to:
  \<open>{ success: true, messageId, provider }\<close>.\<close>

record send_result =
  r_messageId :: string
  r_provider :: string

section \<open>The delivery log tables\<close>

text \<open>
  The columns of \<open>EmailLog\<close> and \<open>SmsLog\<close> (prisma/migrations/.../migration.sql):
  \<open>id SERIAL\<close>, \<open>tenantId INTEGER\<close> with a foreign key to \<open>Tenant\<close>, \<open>status TEXT\<close>,
  nullable \<open>provider\<close> and \<open>errorMessage\<close>, and the two timestamps (milliseconds).
  The columns both tables share form the base record; each table extends it.
\<close>

record log_row =
  row_id :: nat
  tenantId :: int
  status :: string
  provider :: "string option"
  errorMessage :: "string option"
  createdAt :: int
  updatedAt :: int

record email_log = log_row +
  to :: string
  subject :: string
  body :: string

record sms_log = log_row +
  phone :: string
  message :: string

text \<open>
  The observation log. The repositories call \<open>logger.debug\<close> when a row is created and
  when a status is updated; the model records the row, respectively the id with the
  status before and after. \<open>AdapterCalled\<close> is recorded at the moment the service calls the
  vendor adapter, with the request and the table as it stands at that moment. No
  operation reads the observation log.
\<close>

datatype ('r, 'q) event =
    LogCreated 'r
  | AdapterCalled 'q "'r list"
  | StatusUpdated nat string string

text \<open>
  The state one channel's service works on: its table, the table's id sequence, the ids
  of the existing tenants, the clock (\<open>Date.now()\<close>), the state of the vendor behind the
  adapter, and the observation log. The email service and the SMS service have a table and
  an adapter each and share nothing, so each runs on a world of its own.
\<close>

record ('r, 'q, 'v) world =
  logs :: "'r list"
  seq :: nat
  tenants :: "int list"
  now :: int
  vendor :: 'v
  trace :: "('r, 'q) event list"

text \<open>The vendor adapter: given the vendor's state and a request, it resolves with a
  \<open>send_result\<close> or throws, and leaves the vendor in a new state.\<close>

type_synonym ('q, 'v) adapter = "'v \<Rightarrow> 'q \<Rightarrow> (error + send_result) \<times> 'v"

definition emit :: "('r, 'q) event \<Rightarrow> ('r, 'q, 'v) world \<Rightarrow> ('r, 'q, 'v) world" where
  "emit e w = w\<lparr>trace := trace w @ [e]\<rparr>"

text \<open>The primary key and the sequence: ids are pairwise different and below the next
  value of the sequence.\<close>

definition wf_world :: "('a log_row_scheme, 'q, 'v) world \<Rightarrow> bool" where
  "wf_world w \<longleftrightarrow> distinct (map row_id (logs w)) \<and> list_all (\<lambda>l. row_id l < seq w) (logs w)"

subsection \<open>Status update (\<open>prisma.emailLog.update\<close>, \<open>prisma.smsLog.update\<close>)\<close>

text \<open>
  \<open>update({ where: { id }, data: { status, errorMessage, updatedAt: new Date() } })\<close>
  rewrites the row with this id and throws when there is none. Both repositories'
  \<open>update...LogStatus\<close> are this call.
\<close>

definition set_status :: "string \<Rightarrow> string option \<Rightarrow> int \<Rightarrow> 'a log_row_scheme \<Rightarrow> 'a log_row_scheme" where
  "set_status s e t l = l\<lparr>status := s, errorMessage := e, updatedAt := t\<rparr>"

definition update_row ::
  "nat \<Rightarrow> string \<Rightarrow> string option \<Rightarrow> ('a log_row_scheme, 'q, 'v) world
    \<Rightarrow> (error + 'a log_row_scheme) \<times> ('a log_row_scheme, 'q, 'v) world" where
  "update_row i s e w =
     (case find (\<lambda>l. row_id l = i) (logs w) of
        None \<Rightarrow> (Inl (StoreError ''Record to update not found.''), w)
      | Some l \<Rightarrow>
          (Inr (set_status s e (now w) l),
           emit (StatusUpdated i (status l) s)
             (w\<lparr>logs := map (\<lambda>x. if row_id x = i then set_status s e (now w) x else x) (logs w)\<rparr>)))"

section \<open>EmailRepository\<close>

record email_log_data =
  c_tenantId :: int
  c_to :: string
  c_subject :: string
  c_body :: string
  c_status :: "string option"
  c_provider :: "string option"
  c_errorMessage :: "string option"

text \<open>\<open>status: emailData.status || 'pending'\<close>: an absent or empty status is \<open>pending\<close>.\<close>

definition status_or_pending :: "string option \<Rightarrow> string" where
  "status_or_pending s = (case s of None \<Rightarrow> ''pending'' | Some x \<Rightarrow> if x = [] then ''pending'' else x)"

definition createEmailLog ::
  "email_log_data \<Rightarrow> (email_log, 'q, 'v) world \<Rightarrow> (error + email_log) \<times> (email_log, 'q, 'v) world" where
  "createEmailLog d w =
     (if c_tenantId d \<in> set (tenants w) then
        (let emailLog = \<lparr>row_id = seq w, tenantId = c_tenantId d,
                status = status_or_pending (c_status d), provider = c_provider d,
                errorMessage = c_errorMessage d, createdAt = now w, updatedAt = now w,
                to = c_to d, subject = c_subject d, body = c_body d\<rparr>
         in (Inr emailLog,
             emit (LogCreated emailLog) (w\<lparr>logs := logs w @ [emailLog], seq := Suc (seq w)\<rparr>)))
      else (Inl (StoreError ''Foreign key constraint violated: EmailLog_tenantId_fkey''), w))"

definition updateEmailLogStatus ::
  "nat \<Rightarrow> string \<Rightarrow> string option \<Rightarrow> (email_log, 'q, 'v) world
     \<Rightarrow> (error + email_log) \<times> (email_log, 'q, 'v) world" where
  "updateEmailLogStatus i s e w = update_row i s e w"

section \<open>EmailService.sendEmail\<close>

text \<open>The argument of \<open>sendEmail\<close>; \<open>e_options\<close> stands for the rest properties
  (\<open>from\<close>, \<open>replyTo\<close>, \<open>cc\<close>, ...), which are only handed on to the adapter.\<close>

record email_data =
  e_tenantId :: int
  e_to :: string
  e_subject :: string
  e_body :: string
  e_html :: "string option"
  e_provider :: "string option"
  e_options :: "(string \<times> string) list"

text \<open>The argument of \<open>emailConfig.sendEmail\<close>.\<close>

record email_request =
  q_to :: string
  q_subject :: string
  q_body :: string
  q_html :: "string option"
  q_provider :: "string option"
  q_options :: "(string \<times> string) list"

text \<open>What \<open>sendEmail\<close> returns: \<open>{ success: true, emailLogId, messageId, provider }\<close>.\<close>

record email_sent =
  o_emailLogId :: nat
  o_messageId :: string
  o_provider :: string

type_synonym 'v email_world = "(email_log, email_request, 'v) world"

text \<open>The inner \<open>catch\<close> of \<open>sendEmail\<close>: record the failure, then throw the error again.
  When the update itself throws, that error leaves the function instead.\<close>

definition sendEmail_catch ::
  "email_log \<Rightarrow> error \<Rightarrow> 'v email_world \<Rightarrow> (error + email_sent) \<times> 'v email_world" where
  "sendEmail_catch emailLog err w =
     (case updateEmailLogStatus (row_id emailLog) ''failed'' (Some (error_message err)) w of
        (Inl err2, w') \<Rightarrow> (Inl err2, w')
      | (Inr _, w') \<Rightarrow> (Inl err, w'))"

definition call_adapter ::
  "('q, 'v) adapter \<Rightarrow> 'q \<Rightarrow> ('r, 'q, 'v) world \<Rightarrow> (error + send_result) \<times> ('r, 'q, 'v) world" where
  "call_adapter A req w =
     (let w1 = emit (AdapterCalled req (logs w)) w;
          (out, v) = A (vendor w1) req
      in (out, w1\<lparr>vendor := v\<rparr>))"

definition sendEmail ::
  "(email_request, 'v) adapter \<Rightarrow> email_data \<Rightarrow> 'v email_world \<Rightarrow> (error + email_sent) \<times> 'v email_world" where
  "sendEmail A d w =
     (case createEmailLog \<lparr>c_tenantId = e_tenantId d, c_to = e_to d, c_subject = e_subject d,
              c_body = e_body d, c_status = Some ''pending'', c_provider = e_provider d,
              c_errorMessage = None\<rparr> w of
        (Inl err, w1) \<Rightarrow> (Inl err, w1)
      | (Inr emailLog, w1) \<Rightarrow>
          (case call_adapter A \<lparr>q_to = e_to d, q_subject = e_subject d, q_body = e_body d,
                   q_html = e_html d, q_provider = e_provider d, q_options = e_options d\<rparr> w1 of
             (Inl err, w2) \<Rightarrow> sendEmail_catch emailLog err w2
           | (Inr result, w2) \<Rightarrow>
               (case updateEmailLogStatus (row_id emailLog) ''sent'' None w2 of
                  (Inl err, w3) \<Rightarrow> sendEmail_catch emailLog err w3
                | (Inr _, w3) \<Rightarrow>
                    (Inr \<lparr>o_emailLogId = row_id emailLog, o_messageId = r_messageId result,
                          o_provider = r_provider result\<rparr>, w3))))"


section \<open>EmailService.sendBulkEmails\<close>

text \<open>One element of \<open>emails\<close>. \<open>i_options\<close> stands for any further properties of the
  element, which \<open>{ ...email, tenantId, provider }\<close> hands on to \<open>sendEmail\<close>.\<close>

record email_item =
  i_to :: string
  i_subject :: string
  i_body :: string
  i_html :: "string option"
  i_options :: "(string \<times> string) list"

text \<open>One element of \<open>results\<close>: \<open>{ ...email, ...result }\<close> after a send that resolved,
  \<open>{ ...email, success: false, error: error.message }\<close> after one that threw.\<close>

record email_bulk_result =
  b_email :: email_item
  b_success :: bool
  b_emailLogId :: "nat option"
  b_messageId :: "string option"
  b_provider :: "string option"
  b_error :: "string option"

definition email_bulk_ok :: "email_item \<Rightarrow> email_sent \<Rightarrow> email_bulk_result" where
  "email_bulk_ok email result =
     \<lparr>b_email = email, b_success = True, b_emailLogId = Some (o_emailLogId result),
      b_messageId = Some (o_messageId result), b_provider = Some (o_provider result),
      b_error = None\<rparr>"

definition email_bulk_failed :: "email_item \<Rightarrow> error \<Rightarrow> email_bulk_result" where
  "email_bulk_failed email err =
     \<lparr>b_email = email, b_success = False, b_emailLogId = None, b_messageId = None,
      b_provider = None, b_error = Some (error_message err)\<rparr>"

definition email_of_item :: "email_item \<Rightarrow> int \<Rightarrow> string option \<Rightarrow> email_data" where
  "email_of_item email tid prov =
     \<lparr>e_tenantId = tid, e_to = i_to email, e_subject = i_subject email, e_body = i_body email,
      e_html = i_html email, e_provider = prov, e_options = i_options email\<rparr>"

text \<open>\<open>processEmailBatch\<close>: the \<open>for ... of\<close> loop awaits each \<open>sendEmail\<close> before the next
  and catches what it throws.\<close>

fun processEmailBatch_loop ::
  "(email_request, 'v) adapter \<Rightarrow> email_item list \<Rightarrow> int \<Rightarrow> string option
     \<Rightarrow> email_bulk_result list \<Rightarrow> 'v email_world \<Rightarrow> email_bulk_result list \<times> 'v email_world" where
  "processEmailBatch_loop A [] tid prov results w = (results, w)"
| "processEmailBatch_loop A (email # emails) tid prov results w =
     (case sendEmail A (email_of_item email tid prov) w of
        (Inr result, w1) \<Rightarrow>
          processEmailBatch_loop A emails tid prov (results @ [email_bulk_ok email result]) w1
      | (Inl err, w1) \<Rightarrow>
          processEmailBatch_loop A emails tid prov (results @ [email_bulk_failed email err]) w1)"

definition processEmailBatch ::
  "(email_request, 'v) adapter \<Rightarrow> email_item list \<Rightarrow> int \<Rightarrow> string option
     \<Rightarrow> 'v email_world \<Rightarrow> email_bulk_result list \<times> 'v email_world" where
  "processEmailBatch A emails tid prov w = processEmailBatch_loop A emails tid prov [] w"

text \<open>\<open>Array.prototype.slice(start, end)\<close> on integers: a negative index counts from the
  end, and both indices are clamped to the array.\<close>

definition slice_js :: "'a list \<Rightarrow> int \<Rightarrow> int \<Rightarrow> 'a list" where
  "slice_js xs start fin =
     (let len = int (length xs);
          k = (if start < 0 then max (len + start) 0 else min start len);
          final = (if fin < 0 then max (len + fin) 0 else min fin len)
      in take (nat (final - k)) (drop (nat k) xs))"

text \<open>\<open>await new Promise(resolve => setTimeout(resolve, delay))\<close>: the clock moves on by
  the delay (a negative delay counts as none).\<close>

definition pause :: "int \<Rightarrow> ('r, 'q, 'v) world \<Rightarrow> ('r, 'q, 'v) world" where
  "pause delay w = w\<lparr>now := now w + max delay 0\<rparr>"

record bulk_email_data =
  be_emails :: "email_item list"
  be_tenantId :: int
  be_provider :: "string option"
  be_batchSize :: "int option"
  be_delay :: "int option"

record bulk_summary =
  total :: nat
  successful :: nat
  failed :: nat

record email_bulk_outcome =
  bo_results :: "email_bulk_result list"
  bo_summary :: bulk_summary

text \<open>
  The \<open>for (let i = 0; i < emails.length; i += batchSize)\<close> loop of \<open>sendBulkEmails\<close>.
  The source starts a batch, sleeps, starts the next one, and awaits all batches after the
  loop. The model runs the schedule in which a batch has settled when the next one is
  started; \<open>batchResults\<close> holds the results of the batches in the order \<open>batchPromises\<close>
  holds their promises. The loop does not end when \<open>batchSize\<close> is not positive and
  there is an email: then the result is \<open>None\<close>.
\<close>

partial_function (option) sendBulkEmails_loop ::
  "(email_request, 'v) adapter \<Rightarrow> email_item list \<Rightarrow> int \<Rightarrow> string option \<Rightarrow> int \<Rightarrow> int
     \<Rightarrow> int \<Rightarrow> email_bulk_result list list \<Rightarrow> 'v email_world
     \<Rightarrow> (email_bulk_result list list \<times> 'v email_world) option" where
  "sendBulkEmails_loop A emails tid prov batchSize delay i batchResults w =
     (if i < int (length emails) then
        (case processEmailBatch A (slice_js emails i (i + batchSize)) tid prov w of
           (rs, w1) \<Rightarrow>
             sendBulkEmails_loop A emails tid prov batchSize delay (i + batchSize)
               (batchResults @ [rs])
               (if i + batchSize < int (length emails) then pause delay w1 else w1))
      else Some (batchResults, w))"

definition sendBulkEmails ::
  "(email_request, 'v) adapter \<Rightarrow> bulk_email_data \<Rightarrow> 'v email_world
     \<Rightarrow> (email_bulk_outcome \<times> 'v email_world) option" where
  "sendBulkEmails A d w =
     (case sendBulkEmails_loop A (be_emails d) (be_tenantId d) (be_provider d)
             (case be_batchSize d of None \<Rightarrow> 10 | Some b \<Rightarrow> b)
             (case be_delay d of None \<Rightarrow> 1000 | Some t \<Rightarrow> t) 0 [] w of
        None \<Rightarrow> None
      | Some (batchResults, w') \<Rightarrow>
          (let results = concat batchResults
           in Some (\<lparr>bo_results = results,
                     bo_summary = \<lparr>total = length (be_emails d),
                                   successful = length (filter b_success results),
                                   failed = length (filter (\<lambda>r. \<not> b_success r) results)\<rparr>\<rparr>, w')))"


section \<open>Retry of failed emails\<close>

text \<open>
  \<open>findMany({ where: { status: 'failed', createdAt: { gte: new Date(Date.now() - 24 * 60 *
  60 * 1000) } }, orderBy: { createdAt: 'asc' }, take: limit })\<close>, the query of both
  \<open>getFailed...LogsForRetry\<close>. Rows with equal \<open>createdAt\<close> keep the order of the table.
\<close>

definition failed_since :: "nat \<Rightarrow> ('a log_row_scheme, 'q, 'v) world \<Rightarrow> 'a log_row_scheme list" where
  "failed_since limit w =
     take limit
       (sort_key createdAt
          (filter (\<lambda>l. status l = ''failed'' \<and> now w - 24 * 60 * 60 * 1000 \<le> createdAt l) (logs w)))"

definition getFailedEmailLogsForRetry :: "nat \<Rightarrow> 'v email_world \<Rightarrow> email_log list" where
  "getFailedEmailLogsForRetry limit w = failed_since limit w"

text \<open>One element of the array \<open>retryFailedEmails\<close> returns:
  \<open>{ emailLogId, success: true, messageId }\<close> or \<open>{ emailLogId, success: false, error }\<close>.\<close>

record email_retry_result =
  t_emailLogId :: nat
  t_success :: bool
  t_messageId :: "string option"
  t_error :: "string option"

text \<open>The \<open>try\<close> block of the retry loop: status back to \<open>pending\<close> (\<open>errorMessage\<close>
  takes its default \<open>null\<close>), the adapter with the fields of the row, status \<open>sent\<close>.\<close>

definition retryEmail_try ::
  "(email_request, 'v) adapter \<Rightarrow> email_log \<Rightarrow> 'v email_world \<Rightarrow> (error + send_result) \<times> 'v email_world" where
  "retryEmail_try A emailLog w =
     (case updateEmailLogStatus (row_id emailLog) ''pending'' None w of
        (Inl err, w1) \<Rightarrow> (Inl err, w1)
      | (Inr _, w1) \<Rightarrow>
          (case call_adapter A \<lparr>q_to = to emailLog, q_subject = subject emailLog,
                   q_body = body emailLog, q_html = None, q_provider = provider emailLog,
                   q_options = []\<rparr> w1 of
             (Inl err, w2) \<Rightarrow> (Inl err, w2)
           | (Inr result, w2) \<Rightarrow>
               (case updateEmailLogStatus (row_id emailLog) ''sent'' None w2 of
                  (Inl err, w3) \<Rightarrow> (Inl err, w3)
                | (Inr _, w3) \<Rightarrow> (Inr result, w3))))"

text \<open>The loop over the selected rows. An error thrown inside the \<open>catch\<close> block leaves the
  loop and the function.\<close>

fun retryFailedEmails_loop ::
  "(email_request, 'v) adapter \<Rightarrow> email_log list \<Rightarrow> email_retry_result list \<Rightarrow> 'v email_world
     \<Rightarrow> (error + email_retry_result list) \<times> 'v email_world" where
  "retryFailedEmails_loop A [] results w = (Inr results, w)"
| "retryFailedEmails_loop A (emailLog # failedEmails) results w =
     (case retryEmail_try A emailLog w of
        (Inr result, w1) \<Rightarrow>
          retryFailedEmails_loop A failedEmails
            (results @ [\<lparr>t_emailLogId = row_id emailLog, t_success = True,
                          t_messageId = Some (r_messageId result), t_error = None\<rparr>]) w1
      | (Inl err, w1) \<Rightarrow>
          (case updateEmailLogStatus (row_id emailLog) ''failed'' (Some (error_message err)) w1 of
             (Inl err2, w2) \<Rightarrow> (Inl err2, w2)
           | (Inr _, w2) \<Rightarrow>
               retryFailedEmails_loop A failedEmails
                 (results @ [\<lparr>t_emailLogId = row_id emailLog, t_success = False,
                               t_messageId = None, t_error = Some (error_message err)\<rparr>]) w2))"

text \<open>\<open>retryFailedEmails(limit = 50)\<close>.\<close>

definition limit_or_50 :: "nat option \<Rightarrow> nat" where
  "limit_or_50 limit = (case limit of None \<Rightarrow> 50 | Some n \<Rightarrow> n)"

definition retryFailedEmails ::
  "(email_request, 'v) adapter \<Rightarrow> nat option \<Rightarrow> 'v email_world
     \<Rightarrow> (error + email_retry_result list) \<times> 'v email_world" where
  "retryFailedEmails A limit w =
     retryFailedEmails_loop A (getFailedEmailLogsForRetry (limit_or_50 limit) w) [] w"

section \<open>Retention cleanup\<close>

text \<open>
  \<open>cutoffDate = new Date(Date.now() - daysOld * 24 * 60 * 60 * 1000)\<close>, then
  \<open>deleteMany({ where: { createdAt: { lt: cutoffDate }, status: { in: ['sent', 'failed'] } } })\<close>,
  which resolves to the number of rows deleted. A \<open>Date\<close> holds at most 8.64e15
  milliseconds either side of the epoch; beyond that it is invalid and Prisma rejects the
  query.
\<close>

definition valid_date :: "int \<Rightarrow> bool" where
  "valid_date t \<longleftrightarrow> - 8640000000000000 \<le> t \<and> t \<le> 8640000000000000"

definition expired :: "int \<Rightarrow> 'a log_row_scheme \<Rightarrow> bool" where
  "expired cutoffDate l \<longleftrightarrow> createdAt l < cutoffDate \<and> status l \<in> set [''sent'', ''failed'']"

definition cutoff_date :: "int \<Rightarrow> ('r, 'q, 'v) world \<Rightarrow> int" where
  "cutoff_date daysOld w = now w - daysOld * 24 * 60 * 60 * 1000"

definition delete_old ::
  "int \<Rightarrow> ('a log_row_scheme, 'q, 'v) world \<Rightarrow> (error + nat) \<times> ('a log_row_scheme, 'q, 'v) world" where
  "delete_old daysOld w =
     (let cutoffDate = cutoff_date daysOld w
      in if valid_date cutoffDate then
           (Inr (length (filter (expired cutoffDate) (logs w))),
            w\<lparr>logs := filter (\<lambda>l. \<not> expired cutoffDate l) (logs w)\<rparr>)
         else (Inl (StoreError ''Provided Date object is invalid. Expected Date.''), w))"

text \<open>\<open>cleanupOldEmailLogs(daysOld = 90)\<close>, in the repository and, handing on to it, in
  the service.\<close>

definition days_or_90 :: "int option \<Rightarrow> int" where
  "days_or_90 daysOld = (case daysOld of None \<Rightarrow> 90 | Some n \<Rightarrow> n)"

definition cleanupOldEmailLogs :: "int option \<Rightarrow> 'v email_world \<Rightarrow> (error + nat) \<times> 'v email_world" where
  "cleanupOldEmailLogs daysOld w = delete_old (days_or_90 daysOld) w"

section \<open>Listing with filters\<close>

text \<open>
  The filters arrive from the query string: each is absent or a string, \<open>tenantId\<close> a
  number. \<open>x && { ... }\<close> adds a condition when \<open>x\<close> is truthy: a string that is not empty,
  a number that is not 0.
\<close>

definition truthy_str :: "string option \<Rightarrow> bool" where
  "truthy_str s = (case s of None \<Rightarrow> False | Some x \<Rightarrow> x \<noteq> [])"

definition truthy_num :: "int option \<Rightarrow> bool" where
  "truthy_num n = (case n of None \<Rightarrow> False | Some x \<Rightarrow> x \<noteq> 0)"

text \<open>\<open>{ contains: x, mode: 'insensitive' }\<close>: the column contains \<open>x\<close> as a substring,
  letter case aside (here: of the letters A to Z).\<close>

definition lower_char :: "char \<Rightarrow> char" where
  "lower_char c =
     (let n = (of_char c :: nat) in if 65 \<le> n \<and> n \<le> 90 then char_of (n + 32) else c)"

definition toLowerCase :: "string \<Rightarrow> string" where
  "toLowerCase s = map lower_char s"

fun is_prefix :: "'a list \<Rightarrow> 'a list \<Rightarrow> bool" where
  "is_prefix [] ys = True"
| "is_prefix (x # xs) [] = False"
| "is_prefix (x # xs) (y # ys) = (x = y \<and> is_prefix xs ys)"

fun contains_str :: "'a list \<Rightarrow> 'a list \<Rightarrow> bool" where
  "contains_str [] xs = is_prefix xs []"
| "contains_str (y # ys) xs = (is_prefix xs (y # ys) \<or> contains_str ys xs)"

definition contains_insensitive :: "string \<Rightarrow> string \<Rightarrow> bool" where
  "contains_insensitive col x = contains_str (toLowerCase col) (toLowerCase x)"

record log_filters =
  f_tenantId :: "int option"
  f_status :: "string option"
  f_dest :: "string option"
  f_startDate :: "string option"
  f_endDate :: "string option"
  f_provider :: "string option"

record pagination =
  pg_page :: "nat option"
  pg_limit :: "nat option"

record page_info =
  pi_page :: nat
  pi_limit :: nat
  pi_total :: nat
  pi_pages :: "nat option"

text \<open>
  The \<open>where\<close> object of \<open>getEmailLogs\<close> and \<open>getSmsLogs\<close>, as a predicate on rows.
  \<open>dest\<close> reads the column the destination filter is about (\<open>to\<close>, \<open>phone\<close>).
  \<open>date_range\<close> is the value of \<open>startDate && endDate && { createdAt: { gte: new
  Date(startDate), lte: new Date(endDate) } }\<close>: no condition unless both are truthy.
  \<open>parse\<close> is \<open>new Date(string)\<close>, \<open>None\<close> for an invalid date, which Prisma rejects.
\<close>

definition date_range :: "(string \<Rightarrow> int option) \<Rightarrow> log_filters \<Rightarrow> (error + (int \<times> int) option)" where
  "date_range parse f =
     (if truthy_str (f_startDate f) \<and> truthy_str (f_endDate f) then
        (case (parse (the (f_startDate f)), parse (the (f_endDate f))) of
           (Some a, Some b) \<Rightarrow> Inr (Some (a, b))
         | _ \<Rightarrow> Inl (StoreError ''Provided Date object is invalid. Expected Date.''))
      else Inr None)"

definition where_clause ::
  "('a log_row_scheme \<Rightarrow> string) \<Rightarrow> log_filters \<Rightarrow> (int \<times> int) option \<Rightarrow> 'a log_row_scheme \<Rightarrow> bool" where
  "where_clause dest f bounds l \<longleftrightarrow>
     (if truthy_num (f_tenantId f) then Some (tenantId l) = f_tenantId f else True) \<and>
     (if truthy_str (f_status f) then Some (status l) = f_status f else True) \<and>
     (if truthy_str (f_dest f) then contains_insensitive (dest l) (the (f_dest f)) else True) \<and>
     (if truthy_str (f_provider f) then provider l = f_provider f else True) \<and>
     (case bounds of None \<Rightarrow> True | Some (a, b) \<Rightarrow> a \<le> createdAt l \<and> createdAt l \<le> b)"

text \<open>
  \<open>findMany({ where, orderBy: { createdAt: 'desc' }, skip, take: limit })\<close> together with
  \<open>count({ where })\<close>; \<open>page = 1\<close> and \<open>limit = 10\<close> by default, \<open>skip = (page - 1) * limit\<close>.
  Prisma rejects a negative \<open>skip\<close>. \<open>pages = Math.ceil(total / limit)\<close> is not a finite
  number when \<open>limit\<close> is 0.
\<close>

definition list_logs ::
  "('a log_row_scheme \<Rightarrow> string) \<Rightarrow> (string \<Rightarrow> int option) \<Rightarrow> log_filters \<Rightarrow> pagination
     \<Rightarrow> ('a log_row_scheme, 'q, 'v) world \<Rightarrow> error + ('a log_row_scheme list \<times> page_info)" where
  "list_logs dest parse f pg w =
     (let pageN = (case pg_page pg of None \<Rightarrow> 1 | Some n \<Rightarrow> n);
          limitN = (case pg_limit pg of None \<Rightarrow> 10 | Some n \<Rightarrow> n);
          skip = (int pageN - 1) * int limitN
      in case date_range parse f of
           Inl err \<Rightarrow> Inl err
         | Inr bounds \<Rightarrow>
             if skip < 0 then Inl (StoreError ''Invalid value for skip argument.'')
             else
               (let matching = filter (where_clause dest f bounds) (logs w);
                    totalN = length matching
                in Inr (take limitN (drop (nat skip) (sort_key (\<lambda>l. - createdAt l) matching)),
                        \<lparr>pi_page = pageN, pi_limit = limitN, pi_total = totalN,
                         pi_pages = (if limitN = 0 then None
                                  else Some ((totalN + limitN - 1) div limitN))\<rparr>)))"

definition getEmailLogs ::
  "(string \<Rightarrow> int option) \<Rightarrow> log_filters \<Rightarrow> pagination \<Rightarrow> 'v email_world
     \<Rightarrow> error + (email_log list \<times> page_info)" where
  "getEmailLogs parse filters pg w = list_logs to parse filters pg w"


section \<open>SmsRepository and SmsService\<close>

record sms_log_data =
  m_tenantId :: int
  m_phone :: string
  m_message :: string
  m_status :: "string option"
  m_provider :: "string option"
  m_errorMessage :: "string option"

definition createSmsLog ::
  "sms_log_data \<Rightarrow> (sms_log, 'q, 'v) world \<Rightarrow> (error + sms_log) \<times> (sms_log, 'q, 'v) world" where
  "createSmsLog d w =
     (if m_tenantId d \<in> set (tenants w) then
        (let smsLog = \<lparr>row_id = seq w, tenantId = m_tenantId d,
                status = status_or_pending (m_status d), provider = m_provider d,
                errorMessage = m_errorMessage d, createdAt = now w, updatedAt = now w,
                phone = m_phone d, message = m_message d\<rparr>
         in (Inr smsLog,
             emit (LogCreated smsLog) (w\<lparr>logs := logs w @ [smsLog], seq := Suc (seq w)\<rparr>)))
      else (Inl (StoreError ''Foreign key constraint violated: SmsLog_tenantId_fkey''), w))"

definition updateSmsLogStatus ::
  "nat \<Rightarrow> string \<Rightarrow> string option \<Rightarrow> (sms_log, 'q, 'v) world
     \<Rightarrow> (error + sms_log) \<times> (sms_log, 'q, 'v) world" where
  "updateSmsLogStatus i s e w = update_row i s e w"

text \<open>The argument of \<open>sendSms\<close>, with \<open>s_options\<close> for the rest properties.\<close>

record sms_data =
  s_tenantId :: int
  s_phoneNumber :: string
  s_message :: string
  s_provider :: "string option"
  s_options :: "(string \<times> string) list"

text \<open>The argument of \<open>smsConfig.sendSms\<close>.\<close>

record sms_request =
  p_phoneNumber :: string
  p_message :: string
  p_provider :: "string option"
  p_options :: "(string \<times> string) list"

text \<open>What \<open>sendSms\<close> returns: \<open>{ success: true, smsLogId, messageId, provider }\<close>.\<close>

record sms_sent =
  k_smsLogId :: nat
  k_messageId :: string
  k_provider :: string

type_synonym 'v sms_world = "(sms_log, sms_request, 'v) world"

definition sendSms_catch ::
  "sms_log \<Rightarrow> error \<Rightarrow> 'v sms_world \<Rightarrow> (error + sms_sent) \<times> 'v sms_world" where
  "sendSms_catch smsLog err w =
     (case updateSmsLogStatus (row_id smsLog) ''failed'' (Some (error_message err)) w of
        (Inl err2, w') \<Rightarrow> (Inl err2, w')
      | (Inr _, w') \<Rightarrow> (Inl err, w'))"

definition sendSms ::
  "(sms_request, 'v) adapter \<Rightarrow> sms_data \<Rightarrow> 'v sms_world \<Rightarrow> (error + sms_sent) \<times> 'v sms_world" where
  "sendSms A d w =
     (case createSmsLog \<lparr>m_tenantId = s_tenantId d, m_phone = s_phoneNumber d,
              m_message = s_message d, m_status = Some ''pending'', m_provider = s_provider d,
              m_errorMessage = None\<rparr> w of
        (Inl err, w1) \<Rightarrow> (Inl err, w1)
      | (Inr smsLog, w1) \<Rightarrow>
          (case call_adapter A \<lparr>p_phoneNumber = s_phoneNumber d, p_message = s_message d,
                   p_provider = s_provider d, p_options = s_options d\<rparr> w1 of
             (Inl err, w2) \<Rightarrow> sendSms_catch smsLog err w2
           | (Inr result, w2) \<Rightarrow>
               (case updateSmsLogStatus (row_id smsLog) ''sent'' None w2 of
                  (Inl err, w3) \<Rightarrow> sendSms_catch smsLog err w3
                | (Inr _, w3) \<Rightarrow>
                    (Inr \<lparr>k_smsLogId = row_id smsLog, k_messageId = r_messageId result,
                          k_provider = r_provider result\<rparr>, w3))))"

text \<open>One element of the results of \<open>sendBulkSms\<close>: \<open>{ phoneNumber, ...result }\<close> or
  \<open>{ phoneNumber, success: false, error: error.message }\<close>.\<close>

record sms_bulk_result =
  n_phoneNumber :: string
  n_success :: bool
  n_smsLogId :: "nat option"
  n_messageId :: "string option"
  n_provider :: "string option"
  n_error :: "string option"

definition sms_bulk_ok :: "string \<Rightarrow> sms_sent \<Rightarrow> sms_bulk_result" where
  "sms_bulk_ok phoneNumber result =
     \<lparr>n_phoneNumber = phoneNumber, n_success = True, n_smsLogId = Some (k_smsLogId result),
      n_messageId = Some (k_messageId result), n_provider = Some (k_provider result),
      n_error = None\<rparr>"

definition sms_bulk_failed :: "string \<Rightarrow> error \<Rightarrow> sms_bulk_result" where
  "sms_bulk_failed phoneNumber err =
     \<lparr>n_phoneNumber = phoneNumber, n_success = False, n_smsLogId = None, n_messageId = None,
      n_provider = None, n_error = Some (error_message err)\<rparr>"

definition sms_of_number :: "string \<Rightarrow> string \<Rightarrow> int \<Rightarrow> string option \<Rightarrow> sms_data" where
  "sms_of_number phoneNumber msg tid prov =
     \<lparr>s_tenantId = tid, s_phoneNumber = phoneNumber, s_message = msg, s_provider = prov,
      s_options = []\<rparr>"

fun processSmsBatch_loop ::
  "(sms_request, 'v) adapter \<Rightarrow> string list \<Rightarrow> string \<Rightarrow> int \<Rightarrow> string option
     \<Rightarrow> sms_bulk_result list \<Rightarrow> 'v sms_world \<Rightarrow> sms_bulk_result list \<times> 'v sms_world" where
  "processSmsBatch_loop A [] msg tid prov results w = (results, w)"
| "processSmsBatch_loop A (phoneNumber # phoneNumbers) msg tid prov results w =
     (case sendSms A (sms_of_number phoneNumber msg tid prov) w of
        (Inr result, w1) \<Rightarrow>
          processSmsBatch_loop A phoneNumbers msg tid prov
            (results @ [sms_bulk_ok phoneNumber result]) w1
      | (Inl err, w1) \<Rightarrow>
          processSmsBatch_loop A phoneNumbers msg tid prov
            (results @ [sms_bulk_failed phoneNumber err]) w1)"

definition processSmsBatch ::
  "(sms_request, 'v) adapter \<Rightarrow> string list \<Rightarrow> string \<Rightarrow> int \<Rightarrow> string option
     \<Rightarrow> 'v sms_world \<Rightarrow> sms_bulk_result list \<times> 'v sms_world" where
  "processSmsBatch A phoneNumbers msg tid prov w =
     processSmsBatch_loop A phoneNumbers msg tid prov [] w"

record bulk_sms_data =
  bs_phoneNumbers :: "string list"
  bs_message :: string
  bs_tenantId :: int
  bs_provider :: "string option"
  bs_batchSize :: "int option"
  bs_delay :: "int option"

record sms_bulk_outcome =
  so_results :: "sms_bulk_result list"
  so_summary :: bulk_summary

partial_function (option) sendBulkSms_loop ::
  "(sms_request, 'v) adapter \<Rightarrow> string list \<Rightarrow> string \<Rightarrow> int \<Rightarrow> string option \<Rightarrow> int \<Rightarrow> int
     \<Rightarrow> int \<Rightarrow> sms_bulk_result list list \<Rightarrow> 'v sms_world
     \<Rightarrow> (sms_bulk_result list list \<times> 'v sms_world) option" where
  "sendBulkSms_loop A phoneNumbers msg tid prov batchSize delay i batchResults w =
     (if i < int (length phoneNumbers) then
        (case processSmsBatch A (slice_js phoneNumbers i (i + batchSize)) msg tid prov w of
           (rs, w1) \<Rightarrow>
             sendBulkSms_loop A phoneNumbers msg tid prov batchSize delay (i + batchSize)
               (batchResults @ [rs])
               (if i + batchSize < int (length phoneNumbers) then pause delay w1 else w1))
      else Some (batchResults, w))"

definition sendBulkSms ::
  "(sms_request, 'v) adapter \<Rightarrow> bulk_sms_data \<Rightarrow> 'v sms_world
     \<Rightarrow> (sms_bulk_outcome \<times> 'v sms_world) option" where
  "sendBulkSms A d w =
     (case sendBulkSms_loop A (bs_phoneNumbers d) (bs_message d) (bs_tenantId d) (bs_provider d)
             (case bs_batchSize d of None \<Rightarrow> 10 | Some b \<Rightarrow> b)
             (case bs_delay d of None \<Rightarrow> 1000 | Some t \<Rightarrow> t) 0 [] w of
        None \<Rightarrow> None
      | Some (batchResults, w') \<Rightarrow>
          (let results = concat batchResults
           in Some (\<lparr>so_results = results,
                     so_summary = \<lparr>total = length (bs_phoneNumbers d),
                                   successful = length (filter n_success results),
                                   failed = length (filter (\<lambda>r. \<not> n_success r) results)\<rparr>\<rparr>, w')))"

definition getFailedSmsLogsForRetry :: "nat \<Rightarrow> 'v sms_world \<Rightarrow> sms_log list" where
  "getFailedSmsLogsForRetry limit w = failed_since limit w"

record sms_retry_result =
  u_smsLogId :: nat
  u_success :: bool
  u_messageId :: "string option"
  u_error :: "string option"

definition retrySms_try ::
  "(sms_request, 'v) adapter \<Rightarrow> sms_log \<Rightarrow> 'v sms_world \<Rightarrow> (error + send_result) \<times> 'v sms_world" where
  "retrySms_try A smsLog w =
     (case updateSmsLogStatus (row_id smsLog) ''pending'' None w of
        (Inl err, w1) \<Rightarrow> (Inl err, w1)
      | (Inr _, w1) \<Rightarrow>
          (case call_adapter A \<lparr>p_phoneNumber = phone smsLog, p_message = message smsLog,
                   p_provider = provider smsLog, p_options = []\<rparr> w1 of
             (Inl err, w2) \<Rightarrow> (Inl err, w2)
           | (Inr result, w2) \<Rightarrow>
               (case updateSmsLogStatus (row_id smsLog) ''sent'' None w2 of
                  (Inl err, w3) \<Rightarrow> (Inl err, w3)
                | (Inr _, w3) \<Rightarrow> (Inr result, w3))))"

fun retryFailedSms_loop ::
  "(sms_request, 'v) adapter \<Rightarrow> sms_log list \<Rightarrow> sms_retry_result list \<Rightarrow> 'v sms_world
     \<Rightarrow> (error + sms_retry_result list) \<times> 'v sms_world" where
  "retryFailedSms_loop A [] results w = (Inr results, w)"
| "retryFailedSms_loop A (smsLog # failedSms) results w =
     (case retrySms_try A smsLog w of
        (Inr result, w1) \<Rightarrow>
          retryFailedSms_loop A failedSms
            (results @ [\<lparr>u_smsLogId = row_id smsLog, u_success = True,
                          u_messageId = Some (r_messageId result), u_error = None\<rparr>]) w1
      | (Inl err, w1) \<Rightarrow>
          (case updateSmsLogStatus (row_id smsLog) ''failed'' (Some (error_message err)) w1 of
             (Inl err2, w2) \<Rightarrow> (Inl err2, w2)
           | (Inr _, w2) \<Rightarrow>
               retryFailedSms_loop A failedSms
                 (results @ [\<lparr>u_smsLogId = row_id smsLog, u_success = False,
                               u_messageId = None, u_error = Some (error_message err)\<rparr>]) w2))"

definition retryFailedSms ::
  "(sms_request, 'v) adapter \<Rightarrow> nat option \<Rightarrow> 'v sms_world
     \<Rightarrow> (error + sms_retry_result list) \<times> 'v sms_world" where
  "retryFailedSms A limit w =
     retryFailedSms_loop A (getFailedSmsLogsForRetry (limit_or_50 limit) w) [] w"

definition cleanupOldSmsLogs :: "int option \<Rightarrow> 'v sms_world \<Rightarrow> (error + nat) \<times> 'v sms_world" where
  "cleanupOldSmsLogs daysOld w = delete_old (days_or_90 daysOld) w"

definition getSmsLogs ::
  "(string \<Rightarrow> int option) \<Rightarrow> log_filters \<Rightarrow> pagination \<Rightarrow> 'v sms_world
     \<Rightarrow> error + (sms_log list \<times> page_info)" where
  "getSmsLogs parse filters pg w = list_logs phone parse filters pg w"


section \<open>Provider clients: SmsConfig and EmailConfig\<close>

text \<open>
  The two configuration classes build one vendor client per provider name and keep it in a
  \<open>Map\<close>. The environment \<open>process.env\<close> is a partial map from variable names to strings;
  \<open>a || b\<close> on possibly undefined strings is \<open>or_str\<close>, and \<open>or_default\<close> when the right
  operand is a defined string. The vendor libraries are parameters: \<open>twilio\<close> is the
  constructor of the twilio package, \<open>createTransport\<close> is \<open>nodemailer.createTransport\<close>; each
  either throws or returns a client.
\<close>

type_synonym env = "string \<Rightarrow> string option"

definition or_str :: "string option \<Rightarrow> string option \<Rightarrow> string option" where
  "or_str a b = (if truthy_str a then a else b)"

definition or_default :: "string option \<Rightarrow> string \<Rightarrow> string" where
  "or_default a b = (if truthy_str a then the a else b)"

subsection \<open>SmsConfig\<close>

text \<open>The object \<open>getProviderConfig\<close> returns; a property it does not set is undefined.\<close>

record sms_provider_config =
  sc_accountSid :: "string option"
  sc_authToken :: "string option"
  sc_accessKeyId :: "string option"
  sc_secretAccessKey :: "string option"
  sc_region :: "string option"
  sc_apiKey :: "string option"

definition empty_sms_config :: sms_provider_config where
  "empty_sms_config = \<lparr>sc_accountSid = None, sc_authToken = None, sc_accessKeyId = None,
     sc_secretAccessKey = None, sc_region = None, sc_apiKey = None\<rparr>"

definition SmsConfig_getProviderConfig :: "env \<Rightarrow> string \<Rightarrow> sms_provider_config" where
  "SmsConfig_getProviderConfig env pname =
     (if pname = ''twilio'' then
        empty_sms_config\<lparr>sc_accountSid := env ''TWILIO_ACCOUNT_SID'',
          sc_authToken := env ''TWILIO_AUTH_TOKEN''\<rparr>
      else if pname = ''aws-sns'' then
        empty_sms_config\<lparr>sc_accessKeyId := env ''AWS_ACCESS_KEY_ID'',
          sc_secretAccessKey := env ''AWS_SECRET_ACCESS_KEY'', sc_region := env ''AWS_REGION''\<rparr>
      else if pname = ''messagebird'' then
        empty_sms_config\<lparr>sc_apiKey := env ''MESSAGEBIRD_API_KEY''\<rparr>
      else empty_sms_config)"

text \<open>
  The client \<open>createClient\<close> builds: the twilio client, or one of the two object literals
  the source writes in place for \<open>aws-sns\<close> and \<open>messagebird\<close>.
\<close>

datatype 't sms_client = TwilioClient 't | SnsMockClient | MessageBirdMockClient

definition SmsConfig_createClient ::
  "(string option \<Rightarrow> string option \<Rightarrow> error + 't) \<Rightarrow> env \<Rightarrow> string \<Rightarrow> sms_provider_config
     \<Rightarrow> error + 't sms_client" where
  "SmsConfig_createClient twilio env pname config =
     (if toLowerCase pname = ''twilio'' then
        (case twilio (or_str (sc_accountSid config) (env ''TWILIO_ACCOUNT_SID''))
                     (or_str (sc_authToken config) (env ''TWILIO_AUTH_TOKEN'')) of
           Inl err \<Rightarrow> Inl err
         | Inr client \<Rightarrow> Inr (TwilioClient client))
      else if toLowerCase pname = ''aws-sns'' then Inr SnsMockClient
      else if toLowerCase pname = ''messagebird'' then Inr MessageBirdMockClient
      else Inl (VendorError (''Unsupported SMS provider: '' @ pname)))"

text \<open>The fields of the class: the \<open>Map\<close> of clients built so far, in insertion order.\<close>

record 't sms_config =
  clients :: "(string \<times> 't sms_client) list"
  sms_defaultProvider :: string


definition SmsConfig_getClient ::
  "(string option \<Rightarrow> string option \<Rightarrow> error + 't) \<Rightarrow> env \<Rightarrow> 't sms_config \<Rightarrow> string option
     \<Rightarrow> (error + 't sms_client) \<times> 't sms_config" where
  "SmsConfig_getClient twilio env this pname =
     (let providerName = or_default pname (sms_defaultProvider this)
      in case map_of (clients this) providerName of
           Some client \<Rightarrow> (Inr client, this)
         | None \<Rightarrow>
             (case SmsConfig_createClient twilio env providerName
                     (SmsConfig_getProviderConfig env providerName) of
                Inl err \<Rightarrow> (Inl err, this)
              | Inr client \<Rightarrow>
                  (Inr client, this\<lparr>clients := clients this @ [(providerName, client)]\<rparr>)))"

subsection \<open>EmailConfig\<close>

record email_provider_config =
  ec_host :: "string option"
  ec_port :: "string option"
  ec_secure :: bool
  ec_user :: "string option"
  ec_pass :: "string option"
  ec_apiKey :: "string option"
  ec_rejectUnauthorized :: "bool option"

definition empty_email_config :: email_provider_config where
  "empty_email_config = \<lparr>ec_host = None, ec_port = None, ec_secure = False, ec_user = None,
     ec_pass = None, ec_apiKey = None, ec_rejectUnauthorized = None\<rparr>"

definition EmailConfig_getProviderConfig :: "env \<Rightarrow> string \<Rightarrow> email_provider_config" where
  "EmailConfig_getProviderConfig env pname =
     (if pname = ''smtp'' then
        empty_email_config\<lparr>ec_host := env ''SMTP_HOST'', ec_port := env ''SMTP_PORT'',
          ec_secure := (env ''SMTP_SECURE'' = Some ''true''), ec_user := env ''SMTP_USER'',
          ec_pass := env ''SMTP_PASS''\<rparr>
      else if pname = ''gmail'' then
        empty_email_config\<lparr>ec_user := env ''GMAIL_USER'', ec_pass := env ''GMAIL_APP_PASSWORD''\<rparr>
      else if pname = ''sendgrid'' then
        empty_email_config\<lparr>ec_apiKey := env ''SENDGRID_API_KEY''\<rparr>
      else if pname = ''mailgun'' then
        empty_email_config\<lparr>ec_host := env ''MAILGUN_SMTP_HOST'', ec_port := env ''MAILGUN_SMTP_PORT'',
          ec_user := env ''MAILGUN_SMTP_USER'', ec_pass := env ''MAILGUN_SMTP_PASSWORD''\<rparr>
      else empty_email_config)"

text \<open>
  The options handed to \<open>nodemailer.createTransport\<close>, \<open>auth\<close> and \<open>tls\<close> flattened;
  \<open>tr_port\<close> is the argument of \<open>Number\<close>, the literal 587 written as the string it converts
  from.
\<close>

record transport_options =
  tr_service :: "string option"
  tr_host :: "string option"
  tr_port :: "string option"
  tr_secure :: "bool option"
  tr_user :: "string option"
  tr_pass :: "string option"
  tr_rejectUnauthorized :: "bool option"

text \<open>
  After the \<open>switch\<close> the source calls \<open>transporter.verify\<close> with a callback that logs the
  outcome and nothing else; it leaves the value returned as it is.
\<close>

definition EmailConfig_createTransporter ::
  "(transport_options \<Rightarrow> error + 'm) \<Rightarrow> env \<Rightarrow> string \<Rightarrow> email_provider_config \<Rightarrow> error + 'm" where
  "EmailConfig_createTransporter createTransport env pname config =
     (if toLowerCase pname = ''smtp'' then
        createTransport
          \<lparr>tr_service = None, tr_host = or_str (ec_host config) (env ''SMTP_HOST''),
           tr_port = or_str (or_str (ec_port config) (env ''SMTP_PORT'')) (Some ''587''),
           tr_secure = Some (ec_secure config \<or> env ''SMTP_SECURE'' = Some ''true''),
           tr_user = or_str (ec_user config) (env ''SMTP_USER''),
           tr_pass = or_str (ec_pass config) (env ''SMTP_PASS''),
           tr_rejectUnauthorized = Some (ec_rejectUnauthorized config \<noteq> Some False)\<rparr>
      else if toLowerCase pname = ''gmail'' then
        createTransport
          \<lparr>tr_service = Some ''gmail'', tr_host = None, tr_port = None, tr_secure = None,
           tr_user = or_str (ec_user config) (env ''GMAIL_USER''),
           tr_pass = or_str (ec_pass config) (env ''GMAIL_APP_PASSWORD''),
           tr_rejectUnauthorized = None\<rparr>
      else if toLowerCase pname = ''sendgrid'' then
        createTransport
          \<lparr>tr_service = None, tr_host = Some ''smtp.sendgrid.net'', tr_port = Some ''587'',
           tr_secure = Some False, tr_user = Some ''apikey'',
           tr_pass = or_str (ec_apiKey config) (env ''SENDGRID_API_KEY''),
           tr_rejectUnauthorized = None\<rparr>
      else if toLowerCase pname = ''mailgun'' then
        createTransport
          \<lparr>tr_service = None, tr_host = or_str (ec_host config) (Some ''smtp.mailgun.org''),
           tr_port = or_str (ec_port config) (Some ''587''), tr_secure = Some False,
           tr_user = or_str (ec_user config) (env ''MAILGUN_SMTP_USER''),
           tr_pass = or_str (ec_pass config) (env ''MAILGUN_SMTP_PASSWORD''),
           tr_rejectUnauthorized = None\<rparr>
      else Inl (VendorError (''Unsupported email provider: '' @ pname)))"

record 'm email_config =
  transporters :: "(string \<times> 'm) list"
  email_defaultProvider :: string


definition EmailConfig_getTransporter ::
  "(transport_options \<Rightarrow> error + 'm) \<Rightarrow> env \<Rightarrow> 'm email_config \<Rightarrow> string option
     \<Rightarrow> (error + 'm) \<times> 'm email_config" where
  "EmailConfig_getTransporter createTransport env this pname =
     (let providerName = or_default pname (email_defaultProvider this)
      in case map_of (transporters this) providerName of
           Some transporter \<Rightarrow> (Inr transporter, this)
         | None \<Rightarrow>
             (case EmailConfig_createTransporter createTransport env providerName
                     (EmailConfig_getProviderConfig env providerName) of
                Inl err \<Rightarrow> (Inl err, this)
              | Inr transporter \<Rightarrow>
                  (Inr transporter,
                   this\<lparr>transporters := transporters this @ [(providerName, transporter)]\<rparr>)))"

section \<open>Sequences of service operations\<close>

text \<open>The operations of a dispatch service, and time passing between them.\<close>

datatype ('one, 'bulk) service_op = SendOne 'one | SendBulk 'bulk | RetryFailed "nat option" | Elapse nat


text \<open>An operation that does not return (a bulk send whose loop does not end) has no
  state after it.\<close>

fun email_op :: "(email_request, 'v) adapter \<Rightarrow> (email_data, bulk_email_data) service_op
    \<Rightarrow> 'v email_world \<Rightarrow> 'v email_world option" where
  "email_op A (SendOne d) w = Some (snd (sendEmail A d w))"
| "email_op A (SendBulk d) w = map_option snd (sendBulkEmails A d w)"
| "email_op A (RetryFailed limit) w = Some (snd (retryFailedEmails A limit w))"
| "email_op A (Elapse t) w = Some (w\<lparr>now := now w + int t\<rparr>)"

fun email_ops :: "(email_request, 'v) adapter \<Rightarrow> (email_data, bulk_email_data) service_op list
    \<Rightarrow> 'v email_world \<Rightarrow> 'v email_world option" where
  "email_ops A [] w = Some w"
| "email_ops A (x # xs) w = (case email_op A x w of None \<Rightarrow> None | Some w1 \<Rightarrow> email_ops A xs w1)"

fun email_op_returns :: "(email_data, bulk_email_data) service_op \<Rightarrow> bool" where
  "email_op_returns (SendBulk d) =
     (be_emails d = [] \<or> 0 < (case be_batchSize d of None \<Rightarrow> 10 | Some b \<Rightarrow> b))"
| "email_op_returns x = True"

fun sms_op :: "(sms_request, 'v) adapter \<Rightarrow> (sms_data, bulk_sms_data) service_op
    \<Rightarrow> 'v sms_world \<Rightarrow> 'v sms_world option" where
  "sms_op A (SendOne d) w = Some (snd (sendSms A d w))"
| "sms_op A (SendBulk d) w = map_option snd (sendBulkSms A d w)"
| "sms_op A (RetryFailed limit) w = Some (snd (retryFailedSms A limit w))"
| "sms_op A (Elapse t) w = Some (w\<lparr>now := now w + int t\<rparr>)"

fun sms_ops :: "(sms_request, 'v) adapter \<Rightarrow> (sms_data, bulk_sms_data) service_op list
    \<Rightarrow> 'v sms_world \<Rightarrow> 'v sms_world option" where
  "sms_ops A [] w = Some w"
| "sms_ops A (x # xs) w = (case sms_op A x w of None \<Rightarrow> None | Some w1 \<Rightarrow> sms_ops A xs w1)"

fun sms_op_returns :: "(sms_data, bulk_sms_data) service_op \<Rightarrow> bool" where
  "sms_op_returns (SendBulk d) =
     (bs_phoneNumbers d = [] \<or> 0 < (case bs_batchSize d of None \<Rightarrow> 10 | Some b \<Rightarrow> b))"
| "sms_op_returns x = True"


text \<open>The status changes a delivery log row may go through, as events of the observation
  log.\<close>

fun allowed_event :: "('r, 'q) event \<Rightarrow> bool" where
  "allowed_event (StatusUpdated i a b) =
     ((a = ''pending'' \<and> b = ''sent'') \<or> (a = ''pending'' \<and> b = ''failed'') \<or>
      (a = ''failed'' \<and> b = ''pending''))"
| "allowed_event e = True"

text \<open>From state \<open>w\<close> to state \<open>w'\<close> the lifecycle is kept: ids are still unique, the
  observation log has grown by allowed events only, and every row that was \<open>sent\<close> in \<open>w\<close>
  stands in \<open>w'\<close> as it was.\<close>

definition lifecycle_kept :: "('a log_row_scheme, 'q, 'v) world \<Rightarrow> ('a log_row_scheme, 'q, 'v) world \<Rightarrow> bool" where
  "lifecycle_kept w w' \<longleftrightarrow>
     wf_world w' \<and> (\<exists>evs. trace w' = trace w @ evs \<and> list_all allowed_event evs) \<and>
     list_all (\<lambda>l. if status l = ''sent'' then l \<in> set (logs w') else True) (logs w)"

section \<open>Notions the statements use\<close>

text \<open>The row \<open>sendEmail\<close> has \<open>createEmailLog\<close> insert, the request it hands to the
  adapter, and their SMS counterparts.\<close>

definition new_email_log :: "email_data \<Rightarrow> 'v email_world \<Rightarrow> email_log" where
  "new_email_log d w =
     \<lparr>row_id = seq w, tenantId = e_tenantId d, status = ''pending'', provider = e_provider d,
      errorMessage = None, createdAt = now w, updatedAt = now w,
      to = e_to d, subject = e_subject d, body = e_body d\<rparr>"

definition email_request_of :: "email_data \<Rightarrow> email_request" where
  "email_request_of d =
     \<lparr>q_to = e_to d, q_subject = e_subject d, q_body = e_body d,
      q_html = e_html d, q_provider = e_provider d, q_options = e_options d\<rparr>"

definition new_sms_log :: "sms_data \<Rightarrow> 'v sms_world \<Rightarrow> sms_log" where
  "new_sms_log d w =
     \<lparr>row_id = seq w, tenantId = s_tenantId d, status = ''pending'', provider = s_provider d,
      errorMessage = None, createdAt = now w, updatedAt = now w,
      phone = s_phoneNumber d, message = s_message d\<rparr>"

definition sms_request_of :: "sms_data \<Rightarrow> sms_request" where
  "sms_request_of d =
     \<lparr>p_phoneNumber = s_phoneNumber d, p_message = s_message d,
      p_provider = s_provider d, p_options = s_options d\<rparr>"

text \<open>The status and the error text a vendor outcome leaves on the row.\<close>

definition outcome_status :: "(error + 'a) \<Rightarrow> string" where
  "outcome_status out = (case out of Inl _ \<Rightarrow> ''failed'' | Inr _ \<Rightarrow> ''sent'')"

definition outcome_error :: "(error + 'a) \<Rightarrow> string option" where
  "outcome_error out = (case out of Inl err \<Rightarrow> Some (error_message err) | Inr _ \<Rightarrow> None)"

text \<open>The table after the status of the row with id \<open>i\<close> has been rewritten (what
  \<open>update_row\<close> does to the table).\<close>

definition touch ::
  "nat \<Rightarrow> string \<Rightarrow> string option \<Rightarrow> int \<Rightarrow> 'a log_row_scheme list \<Rightarrow> 'a log_row_scheme list" where
  "touch i s e t ls = map (\<lambda>x. if row_id x = i then set_status s e t x else x) ls"

text \<open>The requests the retry loops build from a row.\<close>

definition retry_email_request :: "email_log \<Rightarrow> email_request" where
  "retry_email_request l =
     \<lparr>q_to = to l, q_subject = subject l, q_body = body l, q_html = None,
      q_provider = provider l, q_options = []\<rparr>"

definition retry_sms_request :: "sms_log \<Rightarrow> sms_request" where
  "retry_sms_request l =
     \<lparr>p_phoneNumber = phone l, p_message = message l, p_provider = provider l, p_options = []\<rparr>"

text \<open>One turn of a retry loop on a row whose id is in the table: the state after it.\<close>

definition retry_turn ::
  "('q, 'v) adapter \<Rightarrow> 'q \<Rightarrow> nat \<Rightarrow> ('a log_row_scheme, 'q, 'v) world \<Rightarrow> ('a log_row_scheme, 'q, 'v) world" where
  "retry_turn A req i w =
     (let out = fst (A (vendor w) req) in
      w\<lparr>logs := touch i (outcome_status out) (outcome_error out) (now w) (logs w),
        vendor := snd (A (vendor w) req),
        trace := trace w @
          [StatusUpdated i (status (the (find (\<lambda>x. row_id x = i) (logs w)))) ''pending'',
           AdapterCalled req (touch i ''pending'' None (now w) (logs w)),
           StatusUpdated i ''pending'' (outcome_status out)]\<rparr>)"

definition retry_email_turn :: "(email_request, 'v) adapter \<Rightarrow> email_log \<Rightarrow> 'v email_world \<Rightarrow> 'v email_world" where
  "retry_email_turn A l w = retry_turn A (retry_email_request l) (row_id l) w"

definition retry_sms_turn :: "(sms_request, 'v) adapter \<Rightarrow> sms_log \<Rightarrow> 'v sms_world \<Rightarrow> 'v sms_world" where
  "retry_sms_turn A l w = retry_turn A (retry_sms_request l) (row_id l) w"

text \<open>What one turn of a retry loop writes to the observation log for the row with id
  \<open>i\<close>: the row goes from \<open>failed\<close> to \<open>pending\<close>, the adapter is called with the request
  \<open>req\<close> on a table where that row is \<open>pending\<close>, and the row goes from \<open>pending\<close> to \<open>sent\<close>
  or to \<open>failed\<close>.\<close>

fun retry_events :: "nat \<Rightarrow> 'q \<Rightarrow> ('a log_row_scheme, 'q) event list \<Rightarrow> bool" where
  "retry_events i req [StatusUpdated j a b, AdapterCalled q snap, StatusUpdated k c d] =
     (j = i \<and> a = ''failed'' \<and> b = ''pending'' \<and> q = req \<and> k = i \<and> c = ''pending'' \<and>
      (d = ''sent'' \<or> d = ''failed'') \<and> list_ex (\<lambda>r. row_id r = i \<and> status r = ''pending'') snap)"
| "retry_events i req evs = False"

text \<open>The rows a retry sweep may select: \<open>failed\<close>, and created within the last 24 hours.\<close>

definition eligible :: "('a log_row_scheme, 'q, 'v) world \<Rightarrow> 'a log_row_scheme \<Rightarrow> bool" where
  "eligible w l \<longleftrightarrow> status l = ''failed'' \<and> now w - 86400000 \<le> createdAt l"

text \<open>One turn of \<open>processEmailBatch\<close>: \<open>sendEmail\<close> for one element, a thrown error
  caught and turned into a result.\<close>

definition email_item_step ::
  "(email_request, 'v) adapter \<Rightarrow> int \<Rightarrow> string option \<Rightarrow> email_item \<Rightarrow> 'v email_world
     \<Rightarrow> email_bulk_result \<times> 'v email_world" where
  "email_item_step A tid prov email w =
     (case sendEmail A (email_of_item email tid prov) w of
        (Inr result, w1) \<Rightarrow> (email_bulk_ok email result, w1)
      | (Inl err, w1) \<Rightarrow> (email_bulk_failed email err, w1))"

text \<open>
  What \<open>sendEmail\<close> for one element of a bulk send leaves behind, as a relation between the
  element, its result, the events written to the observation log and the rows added to the
  table. Either nothing was written and the result is a failure (the row could not be
  created); or a \<open>pending\<close> row with the element's fields was created, the adapter was
  called on a table holding it, and the row went to \<open>sent\<close> (result: success, with the
  row's id) or to \<open>failed\<close> (result: failure, with the error text the row carries).
\<close>

fun email_item_ok ::
  "int \<Rightarrow> string option \<Rightarrow> email_item
     \<Rightarrow> email_bulk_result \<times> (email_log, email_request) event list \<times> email_log list \<Rightarrow> bool" where
  "email_item_ok tid prov email (r, [], []) =
     (b_email r = email \<and> \<not> b_success r \<and> b_emailLogId r = None \<and> b_error r \<noteq> None)"
| "email_item_ok tid prov email (r, [LogCreated l, AdapterCalled req snap, StatusUpdated i a b], [l1]) =
     (b_email r = email \<and> status l = ''pending'' \<and> tenantId l = tid \<and> provider l = prov \<and>
      to l = i_to email \<and> subject l = i_subject email \<and> body l = i_body email \<and>
      req = email_request_of (email_of_item email tid prov) \<and> l \<in> set snap \<and>
      i = row_id l \<and> a = ''pending'' \<and> l1 = l\<lparr>status := b, errorMessage := b_error r\<rparr> \<and>
      (if b_success r then b = ''sent'' \<and> b_emailLogId r = Some (row_id l) \<and> b_error r = None
       else b = ''failed'' \<and> b_emailLogId r = None \<and> b_error r \<noteq> None))"
| "email_item_ok tid prov email (r, evs, new) = False"

text \<open>A whole run of such turns from state \<open>w\<close> to state \<open>w'\<close>: one step (result, events,
  new rows) per element, the events and the new rows appended in order.\<close>

definition email_steps_ok ::
  "int \<Rightarrow> string option \<Rightarrow> email_item list
    \<Rightarrow> (email_bulk_result \<times> (email_log, email_request) event list \<times> email_log list) list
    \<Rightarrow> 'v email_world \<Rightarrow> 'v email_world \<Rightarrow> bool" where
  "email_steps_ok tid prov items steps w w' \<longleftrightarrow>
     list_all2 (email_item_ok tid prov) items steps \<and>
     trace w' = trace w @ concat (map (\<lambda>s. fst (snd s)) steps) \<and>
     logs w' = logs w @ concat (map (\<lambda>s. snd (snd s)) steps) \<and>
     tenants w' = tenants w \<and> now w \<le> now w' \<and> wf_world w'"


text \<open>The same for \<open>processSmsBatch\<close> and \<open>sendSms\<close>.\<close>

definition sms_item_step ::
  "(sms_request, 'v) adapter \<Rightarrow> string \<Rightarrow> int \<Rightarrow> string option \<Rightarrow> string \<Rightarrow> 'v sms_world
     \<Rightarrow> sms_bulk_result \<times> 'v sms_world" where
  "sms_item_step A msg tid prov phoneNumber w =
     (case sendSms A (sms_of_number phoneNumber msg tid prov) w of
        (Inr result, w1) \<Rightarrow> (sms_bulk_ok phoneNumber result, w1)
      | (Inl err, w1) \<Rightarrow> (sms_bulk_failed phoneNumber err, w1))"

fun sms_item_ok ::
  "string \<Rightarrow> int \<Rightarrow> string option \<Rightarrow> string
     \<Rightarrow> sms_bulk_result \<times> (sms_log, sms_request) event list \<times> sms_log list \<Rightarrow> bool" where
  "sms_item_ok msg tid prov phoneNumber (r, [], []) =
     (n_phoneNumber r = phoneNumber \<and> \<not> n_success r \<and> n_smsLogId r = None \<and> n_error r \<noteq> None)"
| "sms_item_ok msg tid prov phoneNumber (r, [LogCreated l, AdapterCalled req snap, StatusUpdated i a b], [l1]) =
     (n_phoneNumber r = phoneNumber \<and> status l = ''pending'' \<and> tenantId l = tid \<and> provider l = prov \<and>
      phone l = phoneNumber \<and> message l = msg \<and>
      req = sms_request_of (sms_of_number phoneNumber msg tid prov) \<and> l \<in> set snap \<and>
      i = row_id l \<and> a = ''pending'' \<and> l1 = l\<lparr>status := b, errorMessage := n_error r\<rparr> \<and>
      (if n_success r then b = ''sent'' \<and> n_smsLogId r = Some (row_id l) \<and> n_error r = None
       else b = ''failed'' \<and> n_smsLogId r = None \<and> n_error r \<noteq> None))"
| "sms_item_ok msg tid prov phoneNumber (r, evs, new) = False"

definition sms_steps_ok ::
  "string \<Rightarrow> int \<Rightarrow> string option \<Rightarrow> string list
    \<Rightarrow> (sms_bulk_result \<times> (sms_log, sms_request) event list \<times> sms_log list) list
    \<Rightarrow> 'v sms_world \<Rightarrow> 'v sms_world \<Rightarrow> bool" where
  "sms_steps_ok msg tid prov items steps w w' \<longleftrightarrow>
     list_all2 (sms_item_ok msg tid prov) items steps \<and>
     trace w' = trace w @ concat (map (\<lambda>s. fst (snd s)) steps) \<and>
     logs w' = logs w @ concat (map (\<lambda>s. snd (snd s)) steps) \<and>
     tenants w' = tenants w \<and> now w \<le> now w' \<and> wf_world w'"

section \<open>Sample data\<close>


definition demo_email :: email_data where
  "demo_email = \<lparr>e_tenantId = 7, e_to = ''a@b.c'', e_subject = ''Hi'', e_body = ''Test'',
         e_html = None, e_provider = Some ''smtp'', e_options = []\<rparr>"


definition demo_sms :: sms_data where
  "demo_sms = \<lparr>s_tenantId = 7, s_phoneNumber = ''+15550100'', s_message = ''Hello'',
         s_provider = Some ''twilio'', s_options = []\<rparr>"


text \<open>Tables on day 200 with rows of day 0 and of day 150, and a date parser that knows
  two dates (day 90 and a day in 2030).\<close>

definition mk_email_row :: "nat \<Rightarrow> string \<Rightarrow> int \<Rightarrow> email_log" where
  "mk_email_row i s t =
     \<lparr>row_id = i, tenantId = 7, status = s, provider = None, errorMessage = None,
      createdAt = t, updatedAt = t, to = ''a@b.c'', subject = ''Hi'', body = ''Test''\<rparr>"

definition mk_sms_row :: "nat \<Rightarrow> string \<Rightarrow> int \<Rightarrow> sms_log" where
  "mk_sms_row i s t =
     \<lparr>row_id = i, tenantId = 7, status = s, provider = None, errorMessage = None,
      createdAt = t, updatedAt = t, phone = ''+15550100'', message = ''Hello''\<rparr>"

definition old_email_world :: "unit email_world" where
  "old_email_world =
     \<lparr>logs = [mk_email_row 1 ''pending'' 0, mk_email_row 2 ''sent'' 0,
              mk_email_row 3 ''failed'' (150 * 86400000), mk_email_row 4 ''failed'' 0],
      seq = 5, tenants = [7], now = 200 * 86400000, vendor = (), trace = []\<rparr>"

definition old_sms_world :: "unit sms_world" where
  "old_sms_world =
     \<lparr>logs = [mk_sms_row 1 ''pending'' 0, mk_sms_row 2 ''sent'' 0,
              mk_sms_row 3 ''failed'' (150 * 86400000), mk_sms_row 4 ''failed'' 0],
      seq = 5, tenants = [7], now = 200 * 86400000, vendor = (), trace = []\<rparr>"

definition demo_parse :: "string \<Rightarrow> int option" where
  "demo_parse s =
     (if s = ''1970-04-01'' then Some (90 * 86400000)
      else if s = ''2030-01-01'' then Some 1893456000000 else None)"

definition no_filters :: log_filters where
  "no_filters = \<lparr>f_tenantId = None, f_status = None, f_dest = None, f_startDate = None,
                 f_endDate = None, f_provider = None\<rparr>"

definition first_page :: pagination where
  "first_page = \<lparr>pg_page = None, pg_limit = None\<rparr>"











text \<open>An adapter that throws on its first call and resolves afterwards, the state of the
  vendor being the number of calls so far; and the status changes an observation log
  records.\<close>

definition flaky_adapter :: "('q, nat) adapter" where
  "flaky_adapter v q =
     (if v = 0 then Inl (VendorError ''timeout'')
      else Inr \<lparr>r_messageId = ''abc123'', r_provider = ''smtp''\<rparr>, Suc v)"

definition flaky_email_world :: "nat email_world" where
  "flaky_email_world = \<lparr>logs = [], seq = 1, tenants = [7], now = 1000, vendor = 0, trace = []\<rparr>"

definition flaky_sms_world :: "nat sms_world" where
  "flaky_sms_world = \<lparr>logs = [], seq = 1, tenants = [7], now = 1000, vendor = 0, trace = []\<rparr>"

fun status_changes :: "('r, 'q) event list \<Rightarrow> (nat \<times> string \<times> string) list" where
  "status_changes [] = []"
| "status_changes (StatusUpdated i a b # es) = (i, a, b) # status_changes es"
| "status_changes (e # es) = status_changes es"




section \<open>Rows and status updates\<close>

lemma find_row_None: "find (\<lambda>l. row_id l = i) ls = None \<longleftrightarrow> i \<notin> row_id ` set ls"
  by (induction ls) auto

lemma find_row_Some: "find (\<lambda>l. row_id l = i) ls = Some l \<Longrightarrow> l \<in> set ls \<and> row_id l = i"
  by (induction ls) (auto split: if_splits)

lemma find_row_distinct:
  "distinct (map row_id ls) \<Longrightarrow> l \<in> set ls \<Longrightarrow> find (\<lambda>x. row_id x = row_id l) ls = Some l"
  by (induction ls) (auto simp: image_iff)

lemma row_id_set_status [simp]: "row_id (set_status s e t l) = row_id l"
  by (simp add: set_status_def)

lemma status_set_status [simp]: "status (set_status s e t l) = s"
  by (simp add: set_status_def)

lemma errorMessage_set_status [simp]: "errorMessage (set_status s e t l) = e"
  by (simp add: set_status_def)

lemma createdAt_set_status [simp]: "createdAt (set_status s e t l) = createdAt l"
  by (simp add: set_status_def)

lemma rewrite_ids [simp]:
  "map row_id (map (\<lambda>x. if row_id x = i then set_status s e t x else x) ls) = map row_id ls"
  by (induction ls) auto

lemma rewrite_fresh:
  "i \<notin> row_id ` set ls \<Longrightarrow> map (\<lambda>x. if row_id x = i then f x else x) ls = ls"
  by (induction ls) auto

lemma find_fresh_append:
  "i \<notin> row_id ` set ls \<Longrightarrow> row_id l = i \<Longrightarrow> find (\<lambda>x. row_id x = i) (ls @ [l]) = Some l"
  by (induction ls) auto

lemma wf_fresh: "wf_world w \<Longrightarrow> seq w \<notin> row_id ` set (logs w)"
  by (auto simp: wf_world_def list_all_iff)

lemma update_row_ids: "map row_id (logs (snd (update_row i s e w))) = map row_id (logs w)"
  by (auto simp: update_row_def emit_def split: option.splits)

lemma update_row_seq: "seq (snd (update_row i s e w)) = seq w"
  by (auto simp: update_row_def emit_def split: option.splits)

lemma wf_world_cong:
  "map row_id (logs w') = map row_id (logs w) \<Longrightarrow> seq w' = seq w \<Longrightarrow> wf_world w \<Longrightarrow> wf_world w'"
  unfolding wf_world_def list_all_iff
  by (metis (no_types, lifting) image_iff list.set_map)

lemma update_row_wf: "wf_world w \<Longrightarrow> wf_world (snd (update_row i s e w))"
  by (rule wf_world_cong[OF update_row_ids update_row_seq])

lemma call_adapter_run:
  "A (vendor w) req = (out, v) \<Longrightarrow>
   call_adapter A req w = (out, w\<lparr>vendor := v, trace := trace w @ [AdapterCalled req (logs w)]\<rparr>)"
  by (simp add: call_adapter_def emit_def)

section \<open>A single send, step by step\<close>

lemma row_id_new_email_log [simp]: "row_id (new_email_log d w) = seq w"
  by (simp add: new_email_log_def)

lemma status_new_email_log [simp]: "status (new_email_log d w) = ''pending''"
  by (simp add: new_email_log_def)

lemma createEmailLog_pending:
  "e_tenantId d \<in> set (tenants w) \<Longrightarrow>
   createEmailLog \<lparr>c_tenantId = e_tenantId d, c_to = e_to d, c_subject = e_subject d,
              c_body = e_body d, c_status = Some ''pending'', c_provider = e_provider d,
              c_errorMessage = None\<rparr> w =
   (Inr (new_email_log d w),
    w\<lparr>logs := logs w @ [new_email_log d w], seq := Suc (seq w),
      trace := trace w @ [LogCreated (new_email_log d w)]\<rparr>)"
  by (simp add: createEmailLog_def status_or_pending_def new_email_log_def emit_def Let_def)

lemma sendEmail_no_tenant:
  "e_tenantId d \<notin> set (tenants w) \<Longrightarrow>
   sendEmail A d w = (Inl (StoreError ''Foreign key constraint violated: EmailLog_tenantId_fkey''), w)"
  by (simp add: sendEmail_def createEmailLog_def)

lemma sendEmail_run:
  assumes wf: "wf_world w" and ten: "e_tenantId d \<in> set (tenants w)"
    and A: "A (vendor w) (email_request_of d) = (out, v)"
  shows "sendEmail A d w =
     (case out of Inl err \<Rightarrow> Inl err
        | Inr result \<Rightarrow> Inr \<lparr>o_emailLogId = seq w, o_messageId = r_messageId result,
                              o_provider = r_provider result\<rparr>,
      w\<lparr>logs := logs w @ [set_status (outcome_status out) (outcome_error out) (now w) (new_email_log d w)],
        seq := Suc (seq w), vendor := v,
        trace := trace w @ [LogCreated (new_email_log d w),
                            AdapterCalled (email_request_of d) (logs w @ [new_email_log d w]),
                            StatusUpdated (seq w) ''pending'' (outcome_status out)]\<rparr>)"
proof -
  let ?L = "new_email_log d w"
  let ?w1 = "w\<lparr>logs := logs w @ [?L], seq := Suc (seq w), trace := trace w @ [LogCreated ?L]\<rparr>"
  let ?w2 = "?w1\<lparr>vendor := v, trace := trace ?w1 @ [AdapterCalled (email_request_of d) (logs ?w1)]\<rparr>"
  have fresh: "seq w \<notin> row_id ` set (logs w)" using wf by (rule wf_fresh)
  have c: "call_adapter A (email_request_of d) ?w1 = (out, ?w2)"
    by (rule call_adapter_run) (simp add: A)
  show ?thesis
    unfolding sendEmail_def createEmailLog_pending[OF ten] email_request_of_def[symmetric]
    by (cases out)
       (simp_all add: c sendEmail_catch_def updateEmailLogStatus_def update_row_def emit_def
          find_fresh_append[OF fresh] rewrite_fresh[OF fresh] outcome_status_def outcome_error_def)
qed

lemma row_id_new_sms_log [simp]: "row_id (new_sms_log d w) = seq w"
  by (simp add: new_sms_log_def)

lemma status_new_sms_log [simp]: "status (new_sms_log d w) = ''pending''"
  by (simp add: new_sms_log_def)

lemma createSmsLog_pending:
  "s_tenantId d \<in> set (tenants w) \<Longrightarrow>
   createSmsLog \<lparr>m_tenantId = s_tenantId d, m_phone = s_phoneNumber d,
              m_message = s_message d, m_status = Some ''pending'', m_provider = s_provider d,
              m_errorMessage = None\<rparr> w =
   (Inr (new_sms_log d w),
    w\<lparr>logs := logs w @ [new_sms_log d w], seq := Suc (seq w),
      trace := trace w @ [LogCreated (new_sms_log d w)]\<rparr>)"
  by (simp add: createSmsLog_def status_or_pending_def new_sms_log_def emit_def Let_def)

lemma sendSms_no_tenant:
  "s_tenantId d \<notin> set (tenants w) \<Longrightarrow>
   sendSms A d w = (Inl (StoreError ''Foreign key constraint violated: SmsLog_tenantId_fkey''), w)"
  by (simp add: sendSms_def createSmsLog_def)

lemma sendSms_run:
  assumes wf: "wf_world w" and ten: "s_tenantId d \<in> set (tenants w)"
    and A: "A (vendor w) (sms_request_of d) = (out, v)"
  shows "sendSms A d w =
     (case out of Inl err \<Rightarrow> Inl err
        | Inr result \<Rightarrow> Inr \<lparr>k_smsLogId = seq w, k_messageId = r_messageId result,
                              k_provider = r_provider result\<rparr>,
      w\<lparr>logs := logs w @ [set_status (outcome_status out) (outcome_error out) (now w) (new_sms_log d w)],
        seq := Suc (seq w), vendor := v,
        trace := trace w @ [LogCreated (new_sms_log d w),
                            AdapterCalled (sms_request_of d) (logs w @ [new_sms_log d w]),
                            StatusUpdated (seq w) ''pending'' (outcome_status out)]\<rparr>)"
proof -
  let ?L = "new_sms_log d w"
  let ?w1 = "w\<lparr>logs := logs w @ [?L], seq := Suc (seq w), trace := trace w @ [LogCreated ?L]\<rparr>"
  let ?w2 = "?w1\<lparr>vendor := v, trace := trace ?w1 @ [AdapterCalled (sms_request_of d) (logs ?w1)]\<rparr>"
  have fresh: "seq w \<notin> row_id ` set (logs w)" using wf by (rule wf_fresh)
  have c: "call_adapter A (sms_request_of d) ?w1 = (out, ?w2)"
    by (rule call_adapter_run) (simp add: A)
  show ?thesis
    unfolding sendSms_def createSmsLog_pending[OF ten] sms_request_of_def[symmetric]
    by (cases out)
       (simp_all add: c sendSms_catch_def updateSmsLogStatus_def update_row_def emit_def
          find_fresh_append[OF fresh] rewrite_fresh[OF fresh] outcome_status_def outcome_error_def)
qed


lemma update_row_trace:
  "\<exists>rest. trace (snd (update_row i s e w)) = trace w @ rest \<and> (\<forall>q sn. AdapterCalled q sn \<notin> set rest)"
  by (auto simp: update_row_def emit_def split: option.splits)

lemma sendEmail_catch_trace:
  "\<exists>rest. trace (snd (sendEmail_catch l err w)) = trace w @ rest \<and> (\<forall>q sn. AdapterCalled q sn \<notin> set rest)"
  using update_row_trace[of "row_id l" "''failed''" "Some (error_message err)" w]
  by (auto simp: sendEmail_catch_def updateEmailLogStatus_def split: prod.splits sum.splits)

lemma sendEmail_log_before_dispatch:
  "\<exists>evs. trace (snd (sendEmail A d w)) = trace w @ evs \<and>
     (if e_tenantId d \<in> set (tenants w)
      then \<exists>rest. evs = LogCreated (new_email_log d w)
                        # AdapterCalled (email_request_of d) (logs w @ [new_email_log d w]) # rest
                  \<and> (\<forall>q sn. AdapterCalled q sn \<notin> set rest)
      else evs = [])"
proof (cases "e_tenantId d \<in> set (tenants w)")
  case False
  then show ?thesis by (simp add: sendEmail_no_tenant)
next
  case True
  let ?L = "new_email_log d w"
  let ?w1 = "w\<lparr>logs := logs w @ [?L], seq := Suc (seq w), trace := trace w @ [LogCreated ?L]\<rparr>"
  obtain out v where A: "A (vendor w) (email_request_of d) = (out, v)" by fastforce
  let ?w2 = "?w1\<lparr>vendor := v, trace := trace ?w1 @ [AdapterCalled (email_request_of d) (logs ?w1)]\<rparr>"
  have c: "call_adapter A (email_request_of d) ?w1 = (out, ?w2)"
    by (rule call_adapter_run) (simp add: A)
  have "\<exists>rest. trace (snd (sendEmail A d w)) = trace ?w2 @ rest \<and> (\<forall>q sn. AdapterCalled q sn \<notin> set rest)"
  proof (cases out)
    case (Inl err)
    then show ?thesis
      unfolding sendEmail_def createEmailLog_pending[OF True] email_request_of_def[symmetric]
      using sendEmail_catch_trace[of ?L err ?w2] by (simp add: c)
  next
    case (Inr result)
    obtain r3 w3 where u: "update_row (seq w) ''sent'' None ?w2 = (r3, w3)" by fastforce
    obtain r1 where t3: "trace w3 = trace ?w2 @ r1" "\<forall>q sn. AdapterCalled q sn \<notin> set r1"
      using update_row_trace[of "seq w" "''sent''" None ?w2] u by auto
    show ?thesis
    proof (cases r3)
      case (Inl err)
      obtain r2 where t4: "trace (snd (sendEmail_catch ?L err w3)) = trace w3 @ r2"
          "\<forall>q sn. AdapterCalled q sn \<notin> set r2"
        using sendEmail_catch_trace[of ?L err w3] by auto
      have "sendEmail A d w = sendEmail_catch ?L err w3"
        unfolding sendEmail_def createEmailLog_pending[OF True] email_request_of_def[symmetric]
        using Inr Inl u by (simp add: c updateEmailLogStatus_def)
      then show ?thesis using t3 t4 by (intro exI[of _ "r1 @ r2"]) simp
    next
      case (Inr x)
      have "snd (sendEmail A d w) = w3"
        unfolding sendEmail_def createEmailLog_pending[OF True] email_request_of_def[symmetric]
        using Inr \<open>out = Inr result\<close> u by (simp add: c updateEmailLogStatus_def)
      then show ?thesis using t3 by (intro exI[of _ r1]) simp
    qed
  qed
  then obtain rest where "trace (snd (sendEmail A d w)) = trace ?w2 @ rest"
     "\<forall>q sn. AdapterCalled q sn \<notin> set rest" by blast
  then show ?thesis using True
    by (intro exI[of _ "[LogCreated ?L, AdapterCalled (email_request_of d) (logs w @ [?L])] @ rest"]) simp
qed

lemma sendSms_catch_trace:
  "\<exists>rest. trace (snd (sendSms_catch l err w)) = trace w @ rest \<and> (\<forall>q sn. AdapterCalled q sn \<notin> set rest)"
  using update_row_trace[of "row_id l" "''failed''" "Some (error_message err)" w]
  by (auto simp: sendSms_catch_def updateSmsLogStatus_def split: prod.splits sum.splits)

lemma sendSms_log_before_dispatch:
  "\<exists>evs. trace (snd (sendSms A d w)) = trace w @ evs \<and>
     (if s_tenantId d \<in> set (tenants w)
      then \<exists>rest. evs = LogCreated (new_sms_log d w)
                        # AdapterCalled (sms_request_of d) (logs w @ [new_sms_log d w]) # rest
                  \<and> (\<forall>q sn. AdapterCalled q sn \<notin> set rest)
      else evs = [])"
proof (cases "s_tenantId d \<in> set (tenants w)")
  case False
  then show ?thesis by (simp add: sendSms_no_tenant)
next
  case True
  let ?L = "new_sms_log d w"
  let ?w1 = "w\<lparr>logs := logs w @ [?L], seq := Suc (seq w), trace := trace w @ [LogCreated ?L]\<rparr>"
  obtain out v where A: "A (vendor w) (sms_request_of d) = (out, v)" by fastforce
  let ?w2 = "?w1\<lparr>vendor := v, trace := trace ?w1 @ [AdapterCalled (sms_request_of d) (logs ?w1)]\<rparr>"
  have c: "call_adapter A (sms_request_of d) ?w1 = (out, ?w2)"
    by (rule call_adapter_run) (simp add: A)
  have "\<exists>rest. trace (snd (sendSms A d w)) = trace ?w2 @ rest \<and> (\<forall>q sn. AdapterCalled q sn \<notin> set rest)"
  proof (cases out)
    case (Inl err)
    then show ?thesis
      unfolding sendSms_def createSmsLog_pending[OF True] sms_request_of_def[symmetric]
      using sendSms_catch_trace[of ?L err ?w2] by (simp add: c)
  next
    case (Inr result)
    obtain r3 w3 where u: "update_row (seq w) ''sent'' None ?w2 = (r3, w3)" by fastforce
    obtain r1 where t3: "trace w3 = trace ?w2 @ r1" "\<forall>q sn. AdapterCalled q sn \<notin> set r1"
      using update_row_trace[of "seq w" "''sent''" None ?w2] u by auto
    show ?thesis
    proof (cases r3)
      case (Inl err)
      obtain r2 where t4: "trace (snd (sendSms_catch ?L err w3)) = trace w3 @ r2"
          "\<forall>q sn. AdapterCalled q sn \<notin> set r2"
        using sendSms_catch_trace[of ?L err w3] by auto
      have "sendSms A d w = sendSms_catch ?L err w3"
        unfolding sendSms_def createSmsLog_pending[OF True] sms_request_of_def[symmetric]
        using Inr Inl u by (simp add: c updateSmsLogStatus_def)
      then show ?thesis using t3 t4 by (intro exI[of _ "r1 @ r2"]) simp
    next
      case (Inr x)
      have "snd (sendSms A d w) = w3"
        unfolding sendSms_def createSmsLog_pending[OF True] sms_request_of_def[symmetric]
        using Inr \<open>out = Inr result\<close> u by (simp add: c updateSmsLogStatus_def)
      then show ?thesis using t3 by (intro exI[of _ r1]) simp
    qed
  qed
  then obtain rest where "trace (snd (sendSms A d w)) = trace ?w2 @ rest"
     "\<forall>q sn. AdapterCalled q sn \<notin> set rest" by blast
  then show ?thesis using True
    by (intro exI[of _ "[LogCreated ?L, AdapterCalled (sms_request_of d) (logs w @ [?L])] @ rest"]) simp
qed

section \<open>A failed send is recorded and thrown again\<close>



section \<open>The log row precedes the vendor call\<close>

text \<open>
  Claim C2. What a call of \<open>sendEmail\<close> or \<open>sendSms\<close> adds to the observation log is
  either nothing (the row could not be created, and the adapter is not called), or it
  starts with the creation of the row, with status \<open>pending\<close>, followed by the one adapter
  call of the attempt, issued on a table that holds that row; nothing after it is an adapter
  call.
\<close>

theorem C2_log_row_precedes_adapter_call:
  "(\<exists>evs. trace (snd (sendEmail A d w)) = trace w @ evs \<and>
     (if e_tenantId d \<in> set (tenants w)
      then \<exists>l rest. evs = LogCreated l # AdapterCalled (email_request_of d) (logs w @ [l]) # rest
                  \<and> status l = ''pending'' \<and> row_id l = seq w \<and> tenantId l = e_tenantId d
                  \<and> to l = e_to d \<and> (\<forall>q sn. AdapterCalled q sn \<notin> set rest)
      else evs = []))
   \<and>
   (\<exists>evs. trace (snd (sendSms A' d' w')) = trace w' @ evs \<and>
     (if s_tenantId d' \<in> set (tenants w')
      then \<exists>l rest. evs = LogCreated l # AdapterCalled (sms_request_of d') (logs w' @ [l]) # rest
                  \<and> status l = ''pending'' \<and> row_id l = seq w' \<and> tenantId l = s_tenantId d'
                  \<and> phone l = s_phoneNumber d' \<and> (\<forall>q sn. AdapterCalled q sn \<notin> set rest)
      else evs = []))"
proof
  obtain evs where e: "trace (snd (sendEmail A d w)) = trace w @ evs"
     "if e_tenantId d \<in> set (tenants w)
      then \<exists>rest. evs = LogCreated (new_email_log d w)
                        # AdapterCalled (email_request_of d) (logs w @ [new_email_log d w]) # rest
                  \<and> (\<forall>q sn. AdapterCalled q sn \<notin> set rest)
      else evs = []"
    using sendEmail_log_before_dispatch[of A d w] by blast
  show "\<exists>evs. trace (snd (sendEmail A d w)) = trace w @ evs \<and>
     (if e_tenantId d \<in> set (tenants w)
      then \<exists>l rest. evs = LogCreated l # AdapterCalled (email_request_of d) (logs w @ [l]) # rest
                  \<and> status l = ''pending'' \<and> row_id l = seq w \<and> tenantId l = e_tenantId d
                  \<and> to l = e_to d \<and> (\<forall>q sn. AdapterCalled q sn \<notin> set rest)
      else evs = [])"
  proof (intro exI[of _ evs] conjI)
    show "trace (snd (sendEmail A d w)) = trace w @ evs" by (rule e(1))
    show "if e_tenantId d \<in> set (tenants w)
      then \<exists>l rest. evs = LogCreated l # AdapterCalled (email_request_of d) (logs w @ [l]) # rest
                  \<and> status l = ''pending'' \<and> row_id l = seq w \<and> tenantId l = e_tenantId d
                  \<and> to l = e_to d \<and> (\<forall>q sn. AdapterCalled q sn \<notin> set rest)
      else evs = []"
    proof (cases "e_tenantId d \<in> set (tenants w)")
      case True
      then obtain rest where "evs = LogCreated (new_email_log d w)
                        # AdapterCalled (email_request_of d) (logs w @ [new_email_log d w]) # rest"
          "\<forall>q sn. AdapterCalled q sn \<notin> set rest"
        using e(2) by auto
      then show ?thesis using True
        by (simp add: exI[of _ "new_email_log d w"] new_email_log_def)
    next
      case False
      then show ?thesis using e(2) by simp
    qed
  qed
next
  obtain evs where e: "trace (snd (sendSms A' d' w')) = trace w' @ evs"
     "if s_tenantId d' \<in> set (tenants w')
      then \<exists>rest. evs = LogCreated (new_sms_log d' w')
                        # AdapterCalled (sms_request_of d') (logs w' @ [new_sms_log d' w']) # rest
                  \<and> (\<forall>q sn. AdapterCalled q sn \<notin> set rest)
      else evs = []"
    using sendSms_log_before_dispatch[of A' d' w'] by blast
  show "\<exists>evs. trace (snd (sendSms A' d' w')) = trace w' @ evs \<and>
     (if s_tenantId d' \<in> set (tenants w')
      then \<exists>l rest. evs = LogCreated l # AdapterCalled (sms_request_of d') (logs w' @ [l]) # rest
                  \<and> status l = ''pending'' \<and> row_id l = seq w' \<and> tenantId l = s_tenantId d'
                  \<and> phone l = s_phoneNumber d' \<and> (\<forall>q sn. AdapterCalled q sn \<notin> set rest)
      else evs = [])"
  proof (intro exI[of _ evs] conjI)
    show "trace (snd (sendSms A' d' w')) = trace w' @ evs" by (rule e(1))
    show "if s_tenantId d' \<in> set (tenants w')
      then \<exists>l rest. evs = LogCreated l # AdapterCalled (sms_request_of d') (logs w' @ [l]) # rest
                  \<and> status l = ''pending'' \<and> row_id l = seq w' \<and> tenantId l = s_tenantId d'
                  \<and> phone l = s_phoneNumber d' \<and> (\<forall>q sn. AdapterCalled q sn \<notin> set rest)
      else evs = []"
    proof (cases "s_tenantId d' \<in> set (tenants w')")
      case True
      then obtain rest where "evs = LogCreated (new_sms_log d' w')
                        # AdapterCalled (sms_request_of d') (logs w' @ [new_sms_log d' w']) # rest"
          "\<forall>q sn. AdapterCalled q sn \<notin> set rest"
        using e(2) by auto
      then show ?thesis using True
        by (simp add: exI[of _ "new_sms_log d' w'"] new_sms_log_def)
    next
      case False
      then show ?thesis using e(2) by simp
    qed
  qed
qed


section \<open>Retention cleanup spares pending rows\<close>

lemma delete_old_logs:
  "logs (snd (delete_old n w)) =
     (if valid_date (cutoff_date n w)
      then filter (\<lambda>l. \<not> (createdAt l < cutoff_date n w \<and>
                           (status l = ''sent'' \<or> status l = ''failed''))) (logs w)
      else logs w)"
  by (simp add: delete_old_def expired_def Let_def)

lemma delete_old_frame: "snd (delete_old n w) = w\<lparr>logs := logs (snd (delete_old n w))\<rparr>"
  by (simp add: delete_old_def Let_def)

text \<open>
  Claim C8. \<open>cleanupOldEmailLogs\<close> and \<open>cleanupOldSmsLogs\<close> keep every \<open>pending\<close> row,
  whatever its age. The table afterwards is the table before without the rows that are
  \<open>sent\<close> or \<open>failed\<close> and were created before the cutoff (the whole table when the
  cutoff is no valid date and the query is rejected); nothing else in the state changes.
\<close>

theorem C8_cleanup_spares_pending:
  "((\<forall>l \<in> set (logs w). status l = ''pending'' \<longrightarrow>
        l \<in> set (logs (snd (cleanupOldEmailLogs daysOld w)))) \<and>
    logs (snd (cleanupOldEmailLogs daysOld w)) =
      (if valid_date (cutoff_date (days_or_90 daysOld) w)
       then filter (\<lambda>l. \<not> (createdAt l < cutoff_date (days_or_90 daysOld) w \<and>
                            (status l = ''sent'' \<or> status l = ''failed''))) (logs w)
       else logs w) \<and>
    snd (cleanupOldEmailLogs daysOld w) = w\<lparr>logs := logs (snd (cleanupOldEmailLogs daysOld w))\<rparr>)
   \<and>
   ((\<forall>l \<in> set (logs w'). status l = ''pending'' \<longrightarrow>
        l \<in> set (logs (snd (cleanupOldSmsLogs daysOld' w')))) \<and>
    logs (snd (cleanupOldSmsLogs daysOld' w')) =
      (if valid_date (cutoff_date (days_or_90 daysOld') w')
       then filter (\<lambda>l. \<not> (createdAt l < cutoff_date (days_or_90 daysOld') w' \<and>
                            (status l = ''sent'' \<or> status l = ''failed''))) (logs w')
       else logs w') \<and>
    snd (cleanupOldSmsLogs daysOld' w') = w'\<lparr>logs := logs (snd (cleanupOldSmsLogs daysOld' w'))\<rparr>)"
  unfolding cleanupOldEmailLogs_def cleanupOldSmsLogs_def
  using delete_old_frame[of "days_or_90 daysOld" w] delete_old_frame[of "days_or_90 daysOld'" w']
  by (simp add: delete_old_logs)

text \<open>On day 200, \<open>cleanupOld(90)\<close> deletes the \<open>sent\<close> and the \<open>failed\<close> row of day 0 and
  keeps the \<open>pending\<close> row of day 0 and the \<open>failed\<close> row of day 150.\<close>

theorem C8_cleanup_witness:
  "mk_email_row 1 ''pending'' 0 \<in> set (logs old_email_world)
   \<and> status (mk_email_row 1 ''pending'' 0) = ''pending''
   \<and> mk_email_row 1 ''pending'' 0 \<in> set (logs (snd (cleanupOldEmailLogs (Some 90) old_email_world)))
   \<and> logs (snd (cleanupOldEmailLogs (Some 90) old_email_world)) =
        [mk_email_row 1 ''pending'' 0, mk_email_row 3 ''failed'' (150 * 86400000)]
   \<and> fst (cleanupOldEmailLogs (Some 90) old_email_world) = Inr 2
   \<and> mk_sms_row 1 ''pending'' 0 \<in> set (logs old_sms_world)
   \<and> status (mk_sms_row 1 ''pending'' 0) = ''pending''
   \<and> mk_sms_row 1 ''pending'' 0 \<in> set (logs (snd (cleanupOldSmsLogs (Some 90) old_sms_world)))
   \<and> logs (snd (cleanupOldSmsLogs (Some 90) old_sms_world)) =
        [mk_sms_row 1 ''pending'' 0, mk_sms_row 3 ''failed'' (150 * 86400000)]
   \<and> fst (cleanupOldSmsLogs (Some 90) old_sms_world) = Inr 2"
  using C8_cleanup_spares_pending[of old_email_world "Some 90" old_sms_world "Some 90"]
  by (simp add: cleanupOldEmailLogs_def cleanupOldSmsLogs_def delete_old_def old_email_world_def
        old_sms_world_def cutoff_date_def days_or_90_def valid_date_def expired_def
        mk_email_row_def mk_sms_row_def)

section \<open>A one-sided date range is ignored\<close>

lemma date_range_one_sided:
  "truthy_str (f_startDate f) \<noteq> truthy_str (f_endDate f) \<Longrightarrow> date_range parse f = Inr None"
  by (auto simp: date_range_def)

lemma date_range_cleared [simp]:
  "date_range parse (f\<lparr>f_startDate := None, f_endDate := None\<rparr>) = Inr None"
  by (simp add: date_range_def truthy_str_def)

lemma where_clause_cleared [simp]:
  "where_clause dest (f\<lparr>f_startDate := None, f_endDate := None\<rparr>) b = where_clause dest f b"
  by (simp add: where_clause_def fun_eq_iff)

lemma list_logs_one_sided:
  "truthy_str (f_startDate f) \<noteq> truthy_str (f_endDate f) \<Longrightarrow>
   list_logs dest parse f pg w =
   list_logs dest parse (f\<lparr>f_startDate := None, f_endDate := None\<rparr>) pg w"
  by (simp add: list_logs_def date_range_one_sided Let_def)

lemma list_logs_both:
  assumes "truthy_str (f_startDate f)" "truthy_str (f_endDate f)"
    and "list_logs dest parse f pg w = Inr (rows, info)"
  shows "\<exists>a b. parse (the (f_startDate f)) = Some a \<and> parse (the (f_endDate f)) = Some b \<and>
           list_all (\<lambda>l. a \<le> createdAt l \<and> createdAt l \<le> b) rows"
proof -
  from assms obtain a b where
    p: "parse (the (f_startDate f)) = Some a" "parse (the (f_endDate f)) = Some b"
    by (auto simp: list_logs_def date_range_def Let_def split: option.splits)
  then have dr: "date_range parse f = Inr (Some (a, b))" using assms by (simp add: date_range_def)
  have "set rows \<subseteq> set (filter (where_clause dest f (Some (a, b))) (logs w))"
    using assms(3) set_take_subset set_drop_subset
    by (fastforce simp: list_logs_def dr Let_def split: if_splits)
  then have "list_all (\<lambda>l. a \<le> createdAt l \<and> createdAt l \<le> b) rows"
    by (auto simp: list_all_iff where_clause_def)
  with p show ?thesis by blast
qed

text \<open>
  Claim C10. When exactly one of \<open>startDate\<close> and \<open>endDate\<close> is given (is truthy),
  \<open>getEmailLogs\<close> and \<open>getSmsLogs\<close> answer as they do with neither; when both are given
  and the listing succeeds, both parse to dates and every row returned was created between
  them.
\<close>

theorem C10_one_sided_date_range_ignored:
  "(truthy_str (f_startDate f) \<noteq> truthy_str (f_endDate f) \<longrightarrow>
      getEmailLogs parse f pg w =
      getEmailLogs parse (f\<lparr>f_startDate := None, f_endDate := None\<rparr>) pg w)
   \<and> (truthy_str (f_startDate g) \<and> truthy_str (f_endDate g) \<and>
        getEmailLogs parse g pg w = Inr (rows, info) \<longrightarrow>
        (\<exists>a b. parse (the (f_startDate g)) = Some a \<and> parse (the (f_endDate g)) = Some b \<and>
           list_all (\<lambda>l. a \<le> createdAt l \<and> createdAt l \<le> b) rows))
   \<and> (truthy_str (f_startDate f') \<noteq> truthy_str (f_endDate f') \<longrightarrow>
      getSmsLogs parse' f' pg' w' =
      getSmsLogs parse' (f'\<lparr>f_startDate := None, f_endDate := None\<rparr>) pg' w')
   \<and> (truthy_str (f_startDate g') \<and> truthy_str (f_endDate g') \<and>
        getSmsLogs parse' g' pg' w' = Inr (rows', info') \<longrightarrow>
        (\<exists>a b. parse' (the (f_startDate g')) = Some a \<and> parse' (the (f_endDate g')) = Some b \<and>
           list_all (\<lambda>l. a \<le> createdAt l \<and> createdAt l \<le> b) rows'))"
  unfolding getEmailLogs_def getSmsLogs_def
  using list_logs_one_sided[of f to parse pg w] list_logs_both[of g to parse pg w rows info]
        list_logs_one_sided[of f' phone parse' pg' w'] list_logs_both[of g' phone parse' pg' w' rows' info']
  by blast


lemmas demo_listing = getEmailLogs_def getSmsLogs_def list_logs_def date_range_def where_clause_def
   truthy_str_def truthy_num_def old_email_world_def old_sms_world_def demo_parse_def no_filters_def
   first_page_def mk_email_row_def mk_sms_row_def Let_def

text \<open>On the sample tables: a \<open>startDate\<close> in 2030 alone, or an \<open>endDate\<close> on day 90
  alone, still lists all four rows, the row of day 150 among them; both together list the
  row of day 150 only.\<close>

theorem C10_one_sided_witness:
  "truthy_str (f_startDate (no_filters\<lparr>f_startDate := Some ''2030-01-01''\<rparr>))
     \<noteq> truthy_str (f_endDate (no_filters\<lparr>f_startDate := Some ''2030-01-01''\<rparr>))
   \<and> getEmailLogs demo_parse (no_filters\<lparr>f_startDate := Some ''2030-01-01''\<rparr>) first_page old_email_world
       = getEmailLogs demo_parse no_filters first_page old_email_world
   \<and> getEmailLogs demo_parse (no_filters\<lparr>f_startDate := Some ''2030-01-01''\<rparr>) first_page old_email_world
       = Inr ([mk_email_row 3 ''failed'' (150 * 86400000), mk_email_row 1 ''pending'' 0,
               mk_email_row 2 ''sent'' 0, mk_email_row 4 ''failed'' 0],
              \<lparr>pi_page = 1, pi_limit = 10, pi_total = 4, pi_pages = Some 1\<rparr>)
   \<and> getEmailLogs demo_parse (no_filters\<lparr>f_startDate := Some ''1970-04-01'', f_endDate := Some ''2030-01-01''\<rparr>)
         first_page old_email_world
       = Inr ([mk_email_row 3 ''failed'' (150 * 86400000)],
              \<lparr>pi_page = 1, pi_limit = 10, pi_total = 1, pi_pages = Some 1\<rparr>)
   \<and> list_all (\<lambda>l. 90 * 86400000 \<le> createdAt l \<and> createdAt l \<le> 1893456000000)
         [mk_email_row 3 ''failed'' (150 * 86400000)]
   \<and> getSmsLogs demo_parse (no_filters\<lparr>f_endDate := Some ''1970-04-01''\<rparr>) first_page old_sms_world
       = getSmsLogs demo_parse no_filters first_page old_sms_world
   \<and> getSmsLogs demo_parse (no_filters\<lparr>f_endDate := Some ''1970-04-01''\<rparr>) first_page old_sms_world
       = Inr ([mk_sms_row 3 ''failed'' (150 * 86400000), mk_sms_row 1 ''pending'' 0,
               mk_sms_row 2 ''sent'' 0, mk_sms_row 4 ''failed'' 0],
              \<lparr>pi_page = 1, pi_limit = 10, pi_total = 4, pi_pages = Some 1\<rparr>)
   \<and> getSmsLogs demo_parse (no_filters\<lparr>f_startDate := Some ''1970-04-01'', f_endDate := Some ''2030-01-01''\<rparr>)
         first_page old_sms_world
       = Inr ([mk_sms_row 3 ''failed'' (150 * 86400000)],
              \<lparr>pi_page = 1, pi_limit = 10, pi_total = 1, pi_pages = Some 1\<rparr>)"
  using C10_one_sided_date_range_ignored[of
     "no_filters\<lparr>f_startDate := Some ''2030-01-01''\<rparr>" demo_parse first_page old_email_world
     "no_filters\<lparr>f_startDate := Some ''1970-04-01'', f_endDate := Some ''2030-01-01''\<rparr>"
     "[mk_email_row 3 ''failed'' (150 * 86400000)]"
     "\<lparr>pi_page = 1, pi_limit = 10, pi_total = 1, pi_pages = Some 1\<rparr>"
     "no_filters\<lparr>f_endDate := Some ''1970-04-01''\<rparr>" demo_parse first_page old_sms_world
     "no_filters\<lparr>f_startDate := Some ''1970-04-01'', f_endDate := Some ''2030-01-01''\<rparr>"
     "[mk_sms_row 3 ''failed'' (150 * 86400000)]"
     "\<lparr>pi_page = 1, pi_limit = 10, pi_total = 1, pi_pages = Some 1\<rparr>"]
  by (simp add: demo_listing)


section \<open>The retry sweep\<close>

lemma touch_ids [simp]: "map row_id (touch i s e t ls) = map row_id ls"
  by (simp add: touch_def)

lemma touch_touch [simp]: "touch i s2 e2 t2 (touch i s1 e1 t1 ls) = touch i s2 e2 t2 ls"
  by (induction ls) (auto simp: touch_def set_status_def)

lemma touch_other: "r \<in> set ls \<Longrightarrow> row_id r \<noteq> i \<Longrightarrow> r \<in> set (touch i s e t ls)"
  by (induction ls) (auto simp: touch_def)

lemma touch_find:
  "find (\<lambda>l. row_id l = i) (touch i s e t ls) = map_option (set_status s e t) (find (\<lambda>l. row_id l = i) ls)"
  by (induction ls) (auto simp: touch_def)

lemma touch_find_other:
  "i \<noteq> j \<Longrightarrow> find (\<lambda>l. row_id l = j) (touch i s e t ls) = find (\<lambda>l. row_id l = j) ls"
  by (induction ls) (auto simp: touch_def)

lemma touch_present:
  "r0 \<in> set ls \<Longrightarrow> row_id r0 = i \<Longrightarrow> set_status s e t r0 \<in> set (touch i s e t ls)"
  by (induction ls) (auto simp: touch_def)

lemma update_row_found:
  "find (\<lambda>l. row_id l = i) (logs w) \<noteq> None \<Longrightarrow>
   update_row i s e w =
     (Inr (set_status s e (now w) (the (find (\<lambda>l. row_id l = i) (logs w)))),
      w\<lparr>logs := touch i s e (now w) (logs w),
        trace := trace w @ [StatusUpdated i (status (the (find (\<lambda>l. row_id l = i) (logs w)))) s]\<rparr>)"
  by (auto simp: update_row_def touch_def emit_def)

lemma outcome_status_cases: "outcome_status out = ''sent'' \<or> outcome_status out = ''failed''"
  by (cases out) (simp_all add: outcome_status_def)

lemma turn_logs [simp]:
  "logs (retry_turn A req i w) =
     touch i (outcome_status (fst (A (vendor w) req))) (outcome_error (fst (A (vendor w) req)))
       (now w) (logs w)"
  by (simp add: retry_turn_def Let_def)

lemma turn_now [simp]: "now (retry_turn A req i w) = now w"
  by (simp add: retry_turn_def Let_def)

lemma turn_seq [simp]: "seq (retry_turn A req i w) = seq w"
  by (simp add: retry_turn_def Let_def)

lemma turn_tenants [simp]: "tenants (retry_turn A req i w) = tenants w"
  by (simp add: retry_turn_def Let_def)

lemma turn_trace:
  assumes "find (\<lambda>x. row_id x = i) (logs w) = Some r" "status r = ''failed''"
  shows "\<exists>evs. trace (retry_turn A req i w) = trace w @ evs \<and> retry_events i req evs"
proof -
  have "set_status ''pending'' None (now w) r \<in> set (touch i ''pending'' None (now w) (logs w))"
    using find_row_Some[OF assms(1)] by (auto intro: touch_present)
  then have "list_ex (\<lambda>x. row_id x = i \<and> status x = ''pending'')
       (touch i ''pending'' None (now w) (logs w))"
    using find_row_Some[OF assms(1)] unfolding list_ex_iff
    by (intro bexI[of _ "set_status ''pending'' None (now w) r"]) auto
  then show ?thesis
    using assms outcome_status_cases[of "fst (A (vendor w) req)"]
    by (auto simp: retry_turn_def Let_def)
qed

subsection \<open>The selection\<close>

lemma failed_since_alt:
  "failed_since n w = take n (sort_key createdAt (filter (eligible w) (logs w)))"
  by (simp add: failed_since_def eligible_def[abs_def])

lemma failed_since_length: "length (failed_since n w) \<le> n"
  by (simp add: failed_since_alt)

lemma failed_since_subset: "l \<in> set (failed_since n w) \<Longrightarrow> l \<in> set (logs w) \<and> eligible w l"
  unfolding failed_since_alt using set_take_subset[of n "sort_key createdAt (filter (eligible w) (logs w))"]
  by auto

lemma failed_since_sorted: "sorted (map createdAt (failed_since n w))"
  unfolding failed_since_alt by (simp add: take_map[symmetric] sorted_wrt_take)

lemma failed_since_left_out:
  assumes "r \<in> set (logs w)" "eligible w r" "r \<notin> set (failed_since n w)"
  shows "length (failed_since n w) = n \<and> (\<forall>l \<in> set (failed_since n w). createdAt l \<le> createdAt r)"
proof -
  let ?xs = "sort_key createdAt (filter (eligible w) (logs w))"
  have rx: "r \<in> set ?xs" using assms by simp
  then have "r \<in> set (take n ?xs) \<union> set (drop n ?xs)" by (metis append_take_drop_id set_append)
  then have r: "r \<in> set (drop n ?xs)" using assms(3) by (simp add: failed_since_alt)
  then have "n < length ?xs" by (cases "n < length ?xs") auto
  then have len: "length (failed_since n w) = n" by (simp add: failed_since_alt)
  have "sorted (map createdAt (take n ?xs @ drop n ?xs))" by simp
  then have "\<forall>a \<in> set (take n ?xs). \<forall>b \<in> set (drop n ?xs). createdAt a \<le> createdAt b"
    unfolding map_append sorted_append by auto
  then show ?thesis using r len by (simp add: failed_since_alt)
qed

lemma failed_since_distinct:
  "distinct (map row_id (logs w)) \<Longrightarrow> distinct (map row_id (failed_since n w))"
proof -
  assume d: "distinct (map row_id (logs w))"
  let ?xs = "sort_key createdAt (filter (eligible w) (logs w))"
  have "distinct (logs w)" "inj_on row_id (set (logs w))" using d by (simp_all add: distinct_map)
  then have "distinct ?xs" "inj_on row_id (set ?xs)"
    by (auto intro: inj_on_subset)
  then have "distinct (take n ?xs)" "inj_on row_id (set (take n ?xs))"
    using set_take_subset[of n ?xs] by (auto intro: inj_on_subset)
  then show ?thesis by (simp add: failed_since_alt distinct_map)
qed

lemma failed_since_found:
  assumes "wf_world w" "l \<in> set (failed_since n w)"
  shows "find (\<lambda>x. row_id x = row_id l) (logs w) = Some l \<and> status l = ''failed''"
  using assms failed_since_subset[OF assms(2)] find_row_distinct[of "logs w" l]
  by (simp add: wf_world_def eligible_def)

subsection \<open>The email loop\<close>

lemma retry_email_loop_step:
  assumes f: "find (\<lambda>x. row_id x = row_id l) (logs w) = Some r"
  shows "retryFailedEmails_loop A (l # ls) acc w =
     retryFailedEmails_loop A ls
       (acc @ [case fst (A (vendor w) (retry_email_request l)) of
                 Inr result \<Rightarrow> \<lparr>t_emailLogId = row_id l, t_success = True,
                          t_messageId = Some (r_messageId result), t_error = None\<rparr>
               | Inl err \<Rightarrow> \<lparr>t_emailLogId = row_id l, t_success = False,
                               t_messageId = None, t_error = Some (error_message err)\<rparr>])
       (retry_email_turn A l w)"
proof -
  obtain out v where A: "A (vendor w) (retry_email_request l) = (out, v)" by fastforce
  let ?i = "row_id l"
  let ?w1 = "w\<lparr>logs := touch ?i ''pending'' None (now w) (logs w),
               trace := trace w @ [StatusUpdated ?i (status r) ''pending'']\<rparr>"
  let ?w2 = "?w1\<lparr>vendor := v, trace := trace ?w1 @ [AdapterCalled (retry_email_request l) (logs ?w1)]\<rparr>"
  have c: "call_adapter A (retry_email_request l) ?w1 = (out, ?w2)"
    by (rule call_adapter_run) (simp add: A)
  show ?thesis
    by (cases out)
       (auto simp: retryEmail_try_def updateEmailLogStatus_def retry_email_request_def[symmetric]
          update_row_found touch_find c A retry_email_turn_def retry_turn_def f
          outcome_status_def outcome_error_def
          intro!: arg_cong2[where f="retryFailedEmails_loop A ls"] world.equality)
qed

lemma retry_email_loop_fold:
  assumes "\<forall>l \<in> set ls. row_id l \<in> row_id ` set (logs w)"
  shows "\<exists>outs. retryFailedEmails_loop A ls acc w = (Inr (acc @ outs), fold (retry_email_turn A) ls w)
            \<and> map t_emailLogId outs = map row_id ls"
  using assms
proof (induction ls arbitrary: acc w)
  case Nil
  then show ?case by simp
next
  case (Cons l ls)
  from Cons.prems obtain r where f: "find (\<lambda>x. row_id x = row_id l) (logs w) = Some r"
    using find_row_None[of "row_id l" "logs w"] by (cases "find (\<lambda>x. row_id x = row_id l) (logs w)") auto
  let ?o = "case fst (A (vendor w) (retry_email_request l)) of
                 Inr result \<Rightarrow> \<lparr>t_emailLogId = row_id l, t_success = True,
                          t_messageId = Some (r_messageId result), t_error = None\<rparr>
               | Inl err \<Rightarrow> \<lparr>t_emailLogId = row_id l, t_success = False,
                               t_messageId = None, t_error = Some (error_message err)\<rparr>"
  have o: "t_emailLogId ?o = row_id l" by (simp split: sum.splits)
  have pres: "\<forall>x \<in> set ls. row_id x \<in> row_id ` set (logs (retry_email_turn A l w))"
    using Cons.prems by (simp add: retry_email_turn_def flip: set_map)
  obtain outs where
    "retryFailedEmails_loop A ls (acc @ [?o]) (retry_email_turn A l w)
       = (Inr ((acc @ [?o]) @ outs), fold (retry_email_turn A) ls (retry_email_turn A l w))"
    "map t_emailLogId outs = map row_id ls"
    using Cons.IH[OF pres, of "acc @ [?o]"] by blast
  then show ?case
    unfolding retry_email_loop_step[OF f] using o by (intro exI[of _ "?o # outs"]) simp
qed

lemma fold_email_turn_ids: "map row_id (logs (fold (retry_email_turn A) ls w)) = map row_id (logs w)"
  by (induction ls arbitrary: w) (simp_all add: retry_email_turn_def)

lemma fold_email_turn_frame:
  "seq (fold (retry_email_turn A) ls w) = seq w \<and> now (fold (retry_email_turn A) ls w) = now w
   \<and> tenants (fold (retry_email_turn A) ls w) = tenants w"
  by (induction ls arbitrary: w) (simp_all add: retry_email_turn_def)

lemma fold_email_turn_untouched:
  "r \<in> set (logs w) \<Longrightarrow> row_id r \<notin> row_id ` set ls \<Longrightarrow> r \<in> set (logs (fold (retry_email_turn A) ls w))"
proof (induction ls arbitrary: w)
  case Nil
  then show ?case by simp
next
  case (Cons a ls)
  have "r \<in> set (logs (retry_email_turn A a w))"
    using Cons.prems by (simp add: touch_other retry_email_turn_def)
  then show ?case using Cons.IH[of "retry_email_turn A a w"] Cons.prems(2) by simp
qed

lemma fold_email_turn_find_other:
  "j \<notin> row_id ` set ls \<Longrightarrow>
   find (\<lambda>x. row_id x = j) (logs (fold (retry_email_turn A) ls w)) = find (\<lambda>x. row_id x = j) (logs w)"
  by (induction ls arbitrary: w) (auto simp: touch_find_other retry_email_turn_def)

lemma fold_email_turn_trace:
  assumes "distinct (map row_id ls)"
    and "\<forall>l \<in> set ls. \<exists>r. find (\<lambda>x. row_id x = row_id l) (logs w) = Some r \<and> status r = ''failed''"
  shows "\<exists>steps. trace (fold (retry_email_turn A) ls w) = trace w @ concat steps \<and>
           list_all2 (\<lambda>l evs. retry_events (row_id l) (retry_email_request l) evs) ls steps"
  using assms
proof (induction ls arbitrary: w)
  case Nil
  then show ?case by simp
next
  case (Cons l ls)
  obtain r where f: "find (\<lambda>x. row_id x = row_id l) (logs w) = Some r" "status r = ''failed''"
    using Cons.prems(2) by auto
  obtain evs where e: "trace (retry_email_turn A l w) = trace w @ evs"
      "retry_events (row_id l) (retry_email_request l) evs"
    using turn_trace[OF f] unfolding retry_email_turn_def by blast
  have d: "distinct (map row_id ls)" and nl: "row_id l \<notin> row_id ` set ls"
    using Cons.prems(1) by auto
  have pres: "\<forall>x \<in> set ls. \<exists>r. find (\<lambda>y. row_id y = row_id x) (logs (retry_email_turn A l w)) = Some r
                 \<and> status r = ''failed''"
  proof
    fix x assume x: "x \<in> set ls"
    then have "row_id l \<noteq> row_id x" using nl by auto
    then show "\<exists>r. find (\<lambda>y. row_id y = row_id x) (logs (retry_email_turn A l w)) = Some r \<and> status r = ''failed''"
      using Cons.prems(2) x by (simp add: touch_find_other retry_email_turn_def)
  qed
  obtain steps where s: "trace (fold (retry_email_turn A) ls (retry_email_turn A l w))
        = trace (retry_email_turn A l w) @ concat steps"
      "list_all2 (\<lambda>l evs. retry_events (row_id l) (retry_email_request l) evs) ls steps"
    using Cons.IH[OF d pres] by blast
  show ?case
    using e s by (intro exI[of _ "evs # steps"]) simp
qed

lemma fold_email_turn_final:
  assumes "distinct (map row_id ls)" "l \<in> set ls"
    and "find (\<lambda>x. row_id x = row_id l) (logs w) \<noteq> None"
  shows "\<exists>r. find (\<lambda>x. row_id x = row_id l) (logs (fold (retry_email_turn A) ls w)) = Some r \<and>
           (status r = ''sent'' \<or> status r = ''failed'')"
  using assms
proof (induction ls arbitrary: w)
  case Nil
  then show ?case by simp
next
  case (Cons a ls)
  show ?case
  proof (cases "l \<in> set ls")
    case True
    then have "row_id a \<noteq> row_id l" using Cons.prems(1) by auto
    then have "find (\<lambda>x. row_id x = row_id l) (logs (retry_email_turn A a w)) \<noteq> None"
      using Cons.prems(3) by (simp add: touch_find_other retry_email_turn_def)
    then show ?thesis using Cons.IH[OF _ True] Cons.prems(1) by simp
  next
    case False
    then have la: "l = a" using Cons.prems(2) by simp
    have nl: "row_id l \<notin> row_id ` set ls" using Cons.prems(1) la by auto
    have "\<exists>r. find (\<lambda>x. row_id x = row_id l) (logs (retry_email_turn A a w)) = Some r \<and>
           (status r = ''sent'' \<or> status r = ''failed'')"
      using Cons.prems(3) la outcome_status_cases[of "fst (A (vendor w) (retry_email_request a))"]
      by (auto simp: touch_find retry_email_turn_def)
    then show ?thesis by (simp add: fold_email_turn_find_other[OF nl])
  qed
qed

subsection \<open>The sms loop\<close>

lemma retry_sms_loop_step:
  assumes f: "find (\<lambda>x. row_id x = row_id l) (logs w) = Some r"
  shows "retryFailedSms_loop A (l # ls) acc w =
     retryFailedSms_loop A ls
       (acc @ [case fst (A (vendor w) (retry_sms_request l)) of
                 Inr result \<Rightarrow> \<lparr>u_smsLogId = row_id l, u_success = True,
                          u_messageId = Some (r_messageId result), u_error = None\<rparr>
               | Inl err \<Rightarrow> \<lparr>u_smsLogId = row_id l, u_success = False,
                               u_messageId = None, u_error = Some (error_message err)\<rparr>])
       (retry_sms_turn A l w)"
proof -
  obtain out v where A: "A (vendor w) (retry_sms_request l) = (out, v)" by fastforce
  let ?i = "row_id l"
  let ?w1 = "w\<lparr>logs := touch ?i ''pending'' None (now w) (logs w),
               trace := trace w @ [StatusUpdated ?i (status r) ''pending'']\<rparr>"
  let ?w2 = "?w1\<lparr>vendor := v, trace := trace ?w1 @ [AdapterCalled (retry_sms_request l) (logs ?w1)]\<rparr>"
  have c: "call_adapter A (retry_sms_request l) ?w1 = (out, ?w2)"
    by (rule call_adapter_run) (simp add: A)
  show ?thesis
    by (cases out)
       (auto simp: retrySms_try_def updateSmsLogStatus_def retry_sms_request_def[symmetric]
          update_row_found touch_find c A retry_sms_turn_def retry_turn_def f
          outcome_status_def outcome_error_def
          intro!: arg_cong2[where f="retryFailedSms_loop A ls"] world.equality)
qed

lemma retry_sms_loop_fold:
  assumes "\<forall>l \<in> set ls. row_id l \<in> row_id ` set (logs w)"
  shows "\<exists>outs. retryFailedSms_loop A ls acc w = (Inr (acc @ outs), fold (retry_sms_turn A) ls w)
            \<and> map u_smsLogId outs = map row_id ls"
  using assms
proof (induction ls arbitrary: acc w)
  case Nil
  then show ?case by simp
next
  case (Cons l ls)
  from Cons.prems obtain r where f: "find (\<lambda>x. row_id x = row_id l) (logs w) = Some r"
    using find_row_None[of "row_id l" "logs w"] by (cases "find (\<lambda>x. row_id x = row_id l) (logs w)") auto
  let ?o = "case fst (A (vendor w) (retry_sms_request l)) of
                 Inr result \<Rightarrow> \<lparr>u_smsLogId = row_id l, u_success = True,
                          u_messageId = Some (r_messageId result), u_error = None\<rparr>
               | Inl err \<Rightarrow> \<lparr>u_smsLogId = row_id l, u_success = False,
                               u_messageId = None, u_error = Some (error_message err)\<rparr>"
  have o: "u_smsLogId ?o = row_id l" by (simp split: sum.splits)
  have pres: "\<forall>x \<in> set ls. row_id x \<in> row_id ` set (logs (retry_sms_turn A l w))"
    using Cons.prems by (simp add: retry_sms_turn_def flip: set_map)
  obtain outs where
    "retryFailedSms_loop A ls (acc @ [?o]) (retry_sms_turn A l w)
       = (Inr ((acc @ [?o]) @ outs), fold (retry_sms_turn A) ls (retry_sms_turn A l w))"
    "map u_smsLogId outs = map row_id ls"
    using Cons.IH[OF pres, of "acc @ [?o]"] by blast
  then show ?case
    unfolding retry_sms_loop_step[OF f] using o by (intro exI[of _ "?o # outs"]) simp
qed

lemma fold_sms_turn_ids: "map row_id (logs (fold (retry_sms_turn A) ls w)) = map row_id (logs w)"
  by (induction ls arbitrary: w) (simp_all add: retry_sms_turn_def)

lemma fold_sms_turn_frame:
  "seq (fold (retry_sms_turn A) ls w) = seq w \<and> now (fold (retry_sms_turn A) ls w) = now w
   \<and> tenants (fold (retry_sms_turn A) ls w) = tenants w"
  by (induction ls arbitrary: w) (simp_all add: retry_sms_turn_def)

lemma fold_sms_turn_untouched:
  "r \<in> set (logs w) \<Longrightarrow> row_id r \<notin> row_id ` set ls \<Longrightarrow> r \<in> set (logs (fold (retry_sms_turn A) ls w))"
proof (induction ls arbitrary: w)
  case Nil
  then show ?case by simp
next
  case (Cons a ls)
  have "r \<in> set (logs (retry_sms_turn A a w))"
    using Cons.prems by (simp add: touch_other retry_sms_turn_def)
  then show ?case using Cons.IH[of "retry_sms_turn A a w"] Cons.prems(2) by simp
qed

lemma fold_sms_turn_find_other:
  "j \<notin> row_id ` set ls \<Longrightarrow>
   find (\<lambda>x. row_id x = j) (logs (fold (retry_sms_turn A) ls w)) = find (\<lambda>x. row_id x = j) (logs w)"
  by (induction ls arbitrary: w) (auto simp: touch_find_other retry_sms_turn_def)

lemma fold_sms_turn_trace:
  assumes "distinct (map row_id ls)"
    and "\<forall>l \<in> set ls. \<exists>r. find (\<lambda>x. row_id x = row_id l) (logs w) = Some r \<and> status r = ''failed''"
  shows "\<exists>steps. trace (fold (retry_sms_turn A) ls w) = trace w @ concat steps \<and>
           list_all2 (\<lambda>l evs. retry_events (row_id l) (retry_sms_request l) evs) ls steps"
  using assms
proof (induction ls arbitrary: w)
  case Nil
  then show ?case by simp
next
  case (Cons l ls)
  obtain r where f: "find (\<lambda>x. row_id x = row_id l) (logs w) = Some r" "status r = ''failed''"
    using Cons.prems(2) by auto
  obtain evs where e: "trace (retry_sms_turn A l w) = trace w @ evs"
      "retry_events (row_id l) (retry_sms_request l) evs"
    using turn_trace[OF f] unfolding retry_sms_turn_def by blast
  have d: "distinct (map row_id ls)" and nl: "row_id l \<notin> row_id ` set ls"
    using Cons.prems(1) by auto
  have pres: "\<forall>x \<in> set ls. \<exists>r. find (\<lambda>y. row_id y = row_id x) (logs (retry_sms_turn A l w)) = Some r
                 \<and> status r = ''failed''"
  proof
    fix x assume x: "x \<in> set ls"
    then have "row_id l \<noteq> row_id x" using nl by auto
    then show "\<exists>r. find (\<lambda>y. row_id y = row_id x) (logs (retry_sms_turn A l w)) = Some r \<and> status r = ''failed''"
      using Cons.prems(2) x by (simp add: touch_find_other retry_sms_turn_def)
  qed
  obtain steps where s: "trace (fold (retry_sms_turn A) ls (retry_sms_turn A l w))
        = trace (retry_sms_turn A l w) @ concat steps"
      "list_all2 (\<lambda>l evs. retry_events (row_id l) (retry_sms_request l) evs) ls steps"
    using Cons.IH[OF d pres] by blast
  show ?case
    using e s by (intro exI[of _ "evs # steps"]) simp
qed

lemma fold_sms_turn_final:
  assumes "distinct (map row_id ls)" "l \<in> set ls"
    and "find (\<lambda>x. row_id x = row_id l) (logs w) \<noteq> None"
  shows "\<exists>r. find (\<lambda>x. row_id x = row_id l) (logs (fold (retry_sms_turn A) ls w)) = Some r \<and>
           (status r = ''sent'' \<or> status r = ''failed'')"
  using assms
proof (induction ls arbitrary: w)
  case Nil
  then show ?case by simp
next
  case (Cons a ls)
  show ?case
  proof (cases "l \<in> set ls")
    case True
    then have "row_id a \<noteq> row_id l" using Cons.prems(1) by auto
    then have "find (\<lambda>x. row_id x = row_id l) (logs (retry_sms_turn A a w)) \<noteq> None"
      using Cons.prems(3) by (simp add: touch_find_other retry_sms_turn_def)
    then show ?thesis using Cons.IH[OF _ True] Cons.prems(1) by simp
  next
    case False
    then have la: "l = a" using Cons.prems(2) by simp
    have nl: "row_id l \<notin> row_id ` set ls" using Cons.prems(1) la by auto
    have "\<exists>r. find (\<lambda>x. row_id x = row_id l) (logs (retry_sms_turn A a w)) = Some r \<and>
           (status r = ''sent'' \<or> status r = ''failed'')"
      using Cons.prems(3) la outcome_status_cases[of "fst (A (vendor w) (retry_sms_request a))"]
      by (auto simp: touch_find retry_sms_turn_def)
    then show ?thesis by (simp add: fold_sms_turn_find_other[OF nl])
  qed
qed


lemma retry_email_sweep:
  assumes wf: "wf_world w"
  shows "\<exists>outs. fst (retryFailedEmails A limit w) = Inr outs \<and>
           map t_emailLogId outs = map row_id (getFailedEmailLogsForRetry (limit_or_50 limit) w)"
    and "snd (retryFailedEmails A limit w) =
           fold (retry_email_turn A) (getFailedEmailLogsForRetry (limit_or_50 limit) w) w"
proof -
  let ?sel = "getFailedEmailLogsForRetry (limit_or_50 limit) w"
  have "\<forall>l \<in> set ?sel. row_id l \<in> row_id ` set (logs w)"
    using failed_since_subset unfolding getFailedEmailLogsForRetry_def by blast
  from retry_email_loop_fold[OF this, of A "[]"]
  obtain outs where o: "retryFailedEmails_loop A ?sel [] w = (Inr outs, fold (retry_email_turn A) ?sel w)"
     "map t_emailLogId outs = map row_id ?sel" by auto
  show "\<exists>outs. fst (retryFailedEmails A limit w) = Inr outs \<and>
           map t_emailLogId outs = map row_id ?sel" using o by (simp add: retryFailedEmails_def)
  show "snd (retryFailedEmails A limit w) = fold (retry_email_turn A) ?sel w"
    using o by (simp add: retryFailedEmails_def)
qed

lemma retry_email_sweep_props:
  fixes limit :: "nat option" and w :: "'v email_world" and A :: "(email_request, 'v) adapter"
  assumes wf: "wf_world w"
  defines "sel \<equiv> getFailedEmailLogsForRetry (limit_or_50 limit) w"
    and "w1 \<equiv> snd (retryFailedEmails A limit w)"
  shows "length sel \<le> limit_or_50 limit \<and>
     list_all (\<lambda>l. l \<in> set (logs w) \<and> status l = ''failed'' \<and> now w - 86400000 \<le> createdAt l) sel \<and>
     sorted (map createdAt sel) \<and>
     (\<forall>r \<in> set (logs w). status r = ''failed'' \<and> now w - 86400000 \<le> createdAt r \<and> r \<notin> set sel \<longrightarrow>
        length sel = limit_or_50 limit \<and> list_all (\<lambda>l. createdAt l \<le> createdAt r) sel) \<and>
     (\<exists>outs. fst (retryFailedEmails A limit w) = Inr outs \<and> map t_emailLogId outs = map row_id sel) \<and>
     map row_id (logs w1) = map row_id (logs w) \<and> seq w1 = seq w \<and>
     (\<forall>r \<in> set (logs w). r \<notin> set sel \<longrightarrow> r \<in> set (logs w1)) \<and>
     (\<exists>steps. trace w1 = trace w @ concat steps \<and>
        list_all2 (\<lambda>l evs. retry_events (row_id l) (retry_email_request l) evs) sel steps) \<and>
     list_all (\<lambda>l. \<exists>r \<in> set (logs w1). row_id r = row_id l \<and>
                  (status r = ''sent'' \<or> status r = ''failed'')) sel"
proof -
  have sel: "sel = failed_since (limit_or_50 limit) w" by (simp add: sel_def getFailedEmailLogsForRetry_def)
  have w1: "w1 = fold (retry_email_turn A) sel w"
    unfolding w1_def sel_def by (rule retry_email_sweep(2)[OF wf])
  have d: "distinct (map row_id (logs w))" using wf by (simp add: wf_world_def)
  have dsel: "distinct (map row_id sel)" unfolding sel by (rule failed_since_distinct[OF d])
  have found: "\<forall>l \<in> set sel. find (\<lambda>x. row_id x = row_id l) (logs w) = Some l \<and> status l = ''failed''"
    unfolding sel using failed_since_found[OF wf] by blast
  have 1: "length sel \<le> limit_or_50 limit" unfolding sel by (rule failed_since_length)
  have 2: "list_all (\<lambda>l. l \<in> set (logs w) \<and> status l = ''failed'' \<and> now w - 86400000 \<le> createdAt l) sel"
    unfolding sel list_all_iff using failed_since_subset[of _ "limit_or_50 limit" w] by (auto simp: eligible_def)
  have 3: "sorted (map createdAt sel)" unfolding sel by (rule failed_since_sorted)
  have 4: "\<forall>r \<in> set (logs w). status r = ''failed'' \<and> now w - 86400000 \<le> createdAt r \<and> r \<notin> set sel \<longrightarrow>
        length sel = limit_or_50 limit \<and> list_all (\<lambda>l. createdAt l \<le> createdAt r) sel"
    unfolding sel list_all_iff using failed_since_left_out[of _ w "limit_or_50 limit"] by (auto simp: eligible_def)
  have 5: "\<exists>outs. fst (retryFailedEmails A limit w) = Inr outs \<and> map t_emailLogId outs = map row_id sel"
    unfolding sel_def by (rule retry_email_sweep(1)[OF wf])
  have 6: "map row_id (logs w1) = map row_id (logs w) \<and> seq w1 = seq w"
    unfolding w1 by (simp add: fold_email_turn_ids fold_email_turn_frame)
  have 7: "\<forall>r \<in> set (logs w). r \<notin> set sel \<longrightarrow> r \<in> set (logs w1)"
  proof (intro ballI impI)
    fix r assume r: "r \<in> set (logs w)" "r \<notin> set sel"
    have "row_id r \<notin> row_id ` set sel"
    proof
      assume "row_id r \<in> row_id ` set sel"
      then obtain l where l: "l \<in> set sel" "row_id l = row_id r" by auto
      then have "find (\<lambda>x. row_id x = row_id r) (logs w) = Some l" using found by force
      moreover have "find (\<lambda>x. row_id x = row_id r) (logs w) = Some r"
        using find_row_distinct[OF d r(1)] .
      ultimately show False using l(1) r(2) by simp
    qed
    then show "r \<in> set (logs w1)" unfolding w1 using r(1) by (rule fold_email_turn_untouched[rotated])
  qed
  have 8: "\<exists>steps. trace w1 = trace w @ concat steps \<and>
        list_all2 (\<lambda>l evs. retry_events (row_id l) (retry_email_request l) evs) sel steps"
    unfolding w1 using fold_email_turn_trace[OF dsel, of w A] found by blast
  have 9: "list_all (\<lambda>l. \<exists>r \<in> set (logs w1). row_id r = row_id l \<and>
                  (status r = ''sent'' \<or> status r = ''failed'')) sel"
    unfolding list_all_iff
  proof
    fix l assume l: "l \<in> set sel"
    then have "find (\<lambda>x. row_id x = row_id l) (logs w) \<noteq> None" using found by auto
    from fold_email_turn_final[OF dsel l this, of A]
    obtain r where "find (\<lambda>x. row_id x = row_id l) (logs w1) = Some r"
        "status r = ''sent'' \<or> status r = ''failed''"
      unfolding w1 by blast
    then show "\<exists>r \<in> set (logs w1). row_id r = row_id l \<and> (status r = ''sent'' \<or> status r = ''failed'')"
      using find_row_Some by blast
  qed
  from 1 2 3 4 5 6 7 8 9 show ?thesis by blast
qed

lemma retry_sms_sweep:
  assumes wf: "wf_world w"
  shows "\<exists>outs. fst (retryFailedSms A limit w) = Inr outs \<and>
           map u_smsLogId outs = map row_id (getFailedSmsLogsForRetry (limit_or_50 limit) w)"
    and "snd (retryFailedSms A limit w) =
           fold (retry_sms_turn A) (getFailedSmsLogsForRetry (limit_or_50 limit) w) w"
proof -
  let ?sel = "getFailedSmsLogsForRetry (limit_or_50 limit) w"
  have "\<forall>l \<in> set ?sel. row_id l \<in> row_id ` set (logs w)"
    using failed_since_subset unfolding getFailedSmsLogsForRetry_def by blast
  from retry_sms_loop_fold[OF this, of A "[]"]
  obtain outs where o: "retryFailedSms_loop A ?sel [] w = (Inr outs, fold (retry_sms_turn A) ?sel w)"
     "map u_smsLogId outs = map row_id ?sel" by auto
  show "\<exists>outs. fst (retryFailedSms A limit w) = Inr outs \<and>
           map u_smsLogId outs = map row_id ?sel" using o by (simp add: retryFailedSms_def)
  show "snd (retryFailedSms A limit w) = fold (retry_sms_turn A) ?sel w"
    using o by (simp add: retryFailedSms_def)
qed

lemma retry_sms_sweep_props:
  fixes limit :: "nat option" and w :: "'v sms_world" and A :: "(sms_request, 'v) adapter"
  assumes wf: "wf_world w"
  defines "sel \<equiv> getFailedSmsLogsForRetry (limit_or_50 limit) w"
    and "w1 \<equiv> snd (retryFailedSms A limit w)"
  shows "length sel \<le> limit_or_50 limit \<and>
     list_all (\<lambda>l. l \<in> set (logs w) \<and> status l = ''failed'' \<and> now w - 86400000 \<le> createdAt l) sel \<and>
     sorted (map createdAt sel) \<and>
     (\<forall>r \<in> set (logs w). status r = ''failed'' \<and> now w - 86400000 \<le> createdAt r \<and> r \<notin> set sel \<longrightarrow>
        length sel = limit_or_50 limit \<and> list_all (\<lambda>l. createdAt l \<le> createdAt r) sel) \<and>
     (\<exists>outs. fst (retryFailedSms A limit w) = Inr outs \<and> map u_smsLogId outs = map row_id sel) \<and>
     map row_id (logs w1) = map row_id (logs w) \<and> seq w1 = seq w \<and>
     (\<forall>r \<in> set (logs w). r \<notin> set sel \<longrightarrow> r \<in> set (logs w1)) \<and>
     (\<exists>steps. trace w1 = trace w @ concat steps \<and>
        list_all2 (\<lambda>l evs. retry_events (row_id l) (retry_sms_request l) evs) sel steps) \<and>
     list_all (\<lambda>l. \<exists>r \<in> set (logs w1). row_id r = row_id l \<and>
                  (status r = ''sent'' \<or> status r = ''failed'')) sel"
proof -
  have sel: "sel = failed_since (limit_or_50 limit) w" by (simp add: sel_def getFailedSmsLogsForRetry_def)
  have w1: "w1 = fold (retry_sms_turn A) sel w"
    unfolding w1_def sel_def by (rule retry_sms_sweep(2)[OF wf])
  have d: "distinct (map row_id (logs w))" using wf by (simp add: wf_world_def)
  have dsel: "distinct (map row_id sel)" unfolding sel by (rule failed_since_distinct[OF d])
  have found: "\<forall>l \<in> set sel. find (\<lambda>x. row_id x = row_id l) (logs w) = Some l \<and> status l = ''failed''"
    unfolding sel using failed_since_found[OF wf] by blast
  have 1: "length sel \<le> limit_or_50 limit" unfolding sel by (rule failed_since_length)
  have 2: "list_all (\<lambda>l. l \<in> set (logs w) \<and> status l = ''failed'' \<and> now w - 86400000 \<le> createdAt l) sel"
    unfolding sel list_all_iff using failed_since_subset[of _ "limit_or_50 limit" w] by (auto simp: eligible_def)
  have 3: "sorted (map createdAt sel)" unfolding sel by (rule failed_since_sorted)
  have 4: "\<forall>r \<in> set (logs w). status r = ''failed'' \<and> now w - 86400000 \<le> createdAt r \<and> r \<notin> set sel \<longrightarrow>
        length sel = limit_or_50 limit \<and> list_all (\<lambda>l. createdAt l \<le> createdAt r) sel"
    unfolding sel list_all_iff using failed_since_left_out[of _ w "limit_or_50 limit"] by (auto simp: eligible_def)
  have 5: "\<exists>outs. fst (retryFailedSms A limit w) = Inr outs \<and> map u_smsLogId outs = map row_id sel"
    unfolding sel_def by (rule retry_sms_sweep(1)[OF wf])
  have 6: "map row_id (logs w1) = map row_id (logs w) \<and> seq w1 = seq w"
    unfolding w1 by (simp add: fold_sms_turn_ids fold_sms_turn_frame)
  have 7: "\<forall>r \<in> set (logs w). r \<notin> set sel \<longrightarrow> r \<in> set (logs w1)"
  proof (intro ballI impI)
    fix r assume r: "r \<in> set (logs w)" "r \<notin> set sel"
    have "row_id r \<notin> row_id ` set sel"
    proof
      assume "row_id r \<in> row_id ` set sel"
      then obtain l where l: "l \<in> set sel" "row_id l = row_id r" by auto
      then have "find (\<lambda>x. row_id x = row_id r) (logs w) = Some l" using found by force
      moreover have "find (\<lambda>x. row_id x = row_id r) (logs w) = Some r"
        using find_row_distinct[OF d r(1)] .
      ultimately show False using l(1) r(2) by simp
    qed
    then show "r \<in> set (logs w1)" unfolding w1 using r(1) by (rule fold_sms_turn_untouched[rotated])
  qed
  have 8: "\<exists>steps. trace w1 = trace w @ concat steps \<and>
        list_all2 (\<lambda>l evs. retry_events (row_id l) (retry_sms_request l) evs) sel steps"
    unfolding w1 using fold_sms_turn_trace[OF dsel, of w A] found by blast
  have 9: "list_all (\<lambda>l. \<exists>r \<in> set (logs w1). row_id r = row_id l \<and>
                  (status r = ''sent'' \<or> status r = ''failed'')) sel"
    unfolding list_all_iff
  proof
    fix l assume l: "l \<in> set sel"
    then have "find (\<lambda>x. row_id x = row_id l) (logs w) \<noteq> None" using found by auto
    from fold_sms_turn_final[OF dsel l this, of A]
    obtain r where "find (\<lambda>x. row_id x = row_id l) (logs w1) = Some r"
        "status r = ''sent'' \<or> status r = ''failed''"
      unfolding w1 by blast
    then show "\<exists>r \<in> set (logs w1). row_id r = row_id l \<and> (status r = ''sent'' \<or> status r = ''failed'')"
      using find_row_Some by blast
  qed
  from 1 2 3 4 5 6 7 8 9 show ?thesis by blast
qed

section \<open>What a retry sweep selects and does\<close>






section \<open>Bulk sends\<close>

lemma wf_world_pause [simp]: "wf_world (pause delay w) = wf_world w"
  by (simp add: wf_world_def pause_def)

lemma slice_js_chunk:
  "0 \<le> i \<Longrightarrow> i < int (length xs) \<Longrightarrow> 0 < b \<Longrightarrow> slice_js xs i (i + b) = take (nat b) (drop (nat i) xs)"
  by (auto simp: slice_js_def Let_def min_def)



subsection \<open>Bulk email\<close>

lemma email_batch_loop_step:
  "processEmailBatch_loop A (email # emails) tid prov acc w =
   processEmailBatch_loop A emails tid prov (acc @ [fst (email_item_step A tid prov email w)])
     (snd (email_item_step A tid prov email w))"
  by (simp add: email_item_step_def split: prod.splits sum.splits)

lemma email_item_step_ok:
  assumes wf: "wf_world w"
  shows "\<exists>evs new. email_item_ok tid prov email (fst (email_item_step A tid prov email w), evs, new) \<and>
           trace (snd (email_item_step A tid prov email w)) = trace w @ evs \<and>
           logs (snd (email_item_step A tid prov email w)) = logs w @ new \<and>
           seq (snd (email_item_step A tid prov email w)) = seq w + length new \<and>
           list_all (\<lambda>l. row_id l = seq w) new \<and>
           now (snd (email_item_step A tid prov email w)) = now w \<and>
           tenants (snd (email_item_step A tid prov email w)) = tenants w \<and>
           wf_world (snd (email_item_step A tid prov email w))"
proof (cases "tid \<in> set (tenants w)")
  case False
  then have "sendEmail A (email_of_item email tid prov) w =
     (Inl (StoreError ''Foreign key constraint violated: EmailLog_tenantId_fkey''), w)"
    by (intro sendEmail_no_tenant) (simp add: email_of_item_def)
  then show ?thesis
    using wf by (intro exI[of _ "[]"]) (simp add: email_item_step_def email_bulk_failed_def)
next
  case True
  let ?d = "email_of_item email tid prov"
  obtain out v where A: "A (vendor w) (email_request_of ?d) = (out, v)" by fastforce
  have ten: "e_tenantId ?d \<in> set (tenants w)" using True by (simp add: email_of_item_def)
  note run = sendEmail_run[of w ?d A out v, OF wf ten A]
  let ?L = "new_email_log ?d w"
  have wf': "wf_world (w\<lparr>logs := logs w @ [set_status s e (now w) ?L], seq := Suc (seq w), vendor := v,
        trace := t\<rparr>)" for s e t
    using wf wf_fresh[OF wf] by (auto simp: wf_world_def list_all_iff)
  show ?thesis
  proof (cases out)
    case (Inl err)
    have step: "email_item_step A tid prov email w = (email_bulk_failed email err,
       w\<lparr>logs := logs w @ [set_status ''failed'' (Some (error_message err)) (now w) ?L],
        seq := Suc (seq w), vendor := v,
        trace := trace w @ [LogCreated ?L, AdapterCalled (email_request_of ?d) (logs w @ [?L]),
                            StatusUpdated (seq w) ''pending'' ''failed'']\<rparr>)"
      unfolding email_item_step_def run using Inl by (simp add: outcome_status_def outcome_error_def)
    show ?thesis
      unfolding step
      apply (rule exI[of _ "[LogCreated ?L, AdapterCalled (email_request_of ?d) (logs w @ [?L]),
               StatusUpdated (seq w) ''pending'' ''failed'']"])
      apply (rule exI[of _ "[set_status ''failed'' (Some (error_message err)) (now w) ?L]"])
      using wf' by (simp add: email_bulk_failed_def new_email_log_def email_of_item_def set_status_def)
  next
    case (Inr result)
    have step: "email_item_step A tid prov email w =
      (email_bulk_ok email \<lparr>o_emailLogId = seq w, o_messageId = r_messageId result,
                              o_provider = r_provider result\<rparr>,
       w\<lparr>logs := logs w @ [set_status ''sent'' None (now w) ?L],
        seq := Suc (seq w), vendor := v,
        trace := trace w @ [LogCreated ?L, AdapterCalled (email_request_of ?d) (logs w @ [?L]),
                            StatusUpdated (seq w) ''pending'' ''sent'']\<rparr>)"
      unfolding email_item_step_def run using Inr by (simp add: outcome_status_def outcome_error_def)
    show ?thesis
      unfolding step
      apply (rule exI[of _ "[LogCreated ?L, AdapterCalled (email_request_of ?d) (logs w @ [?L]),
               StatusUpdated (seq w) ''pending'' ''sent'']"])
      apply (rule exI[of _ "[set_status ''sent'' None (now w) ?L]"])
      using wf' by (simp add: email_bulk_ok_def new_email_log_def email_of_item_def set_status_def)
  qed
qed


lemma email_steps_ok_append:
  "email_steps_ok tid prov xs s1 w w1 \<Longrightarrow> email_steps_ok tid prov ys s2 w1 w2 \<Longrightarrow>
   email_steps_ok tid prov (xs @ ys) (s1 @ s2) w w2"
  by (auto simp: email_steps_ok_def intro: list_all2_appendI)

lemma email_steps_ok_pause:
  "email_steps_ok tid prov xs s w w1 \<Longrightarrow> email_steps_ok tid prov xs s w (pause delay w1)"
  unfolding email_steps_ok_def wf_world_pause by (auto simp: pause_def)

lemma email_batch_loop_ok:
  assumes "wf_world w"
  shows "\<exists>steps. fst (processEmailBatch_loop A items tid prov acc w) = acc @ map fst steps \<and>
           email_steps_ok tid prov items steps w (snd (processEmailBatch_loop A items tid prov acc w))"
  using assms
proof (induction items arbitrary: acc w)
  case Nil
  then show ?case by (simp add: email_steps_ok_def)
next
  case (Cons email items)
  let ?r = "fst (email_item_step A tid prov email w)"
  let ?w1 = "snd (email_item_step A tid prov email w)"
  obtain evs new where st: "email_item_ok tid prov email (?r, evs, new)"
      "trace ?w1 = trace w @ evs" "logs ?w1 = logs w @ new" "now ?w1 = now w"
      "tenants ?w1 = tenants w" "wf_world ?w1"
    using email_item_step_ok[OF Cons.prems, of tid prov email A] by blast
  then have one: "email_steps_ok tid prov [email] [(?r, evs, new)] w ?w1"
    by (simp add: email_steps_ok_def)
  obtain steps where IH: "fst (processEmailBatch_loop A items tid prov (acc @ [?r]) ?w1)
        = (acc @ [?r]) @ map fst steps"
      "email_steps_ok tid prov items steps ?w1 (snd (processEmailBatch_loop A items tid prov (acc @ [?r]) ?w1))"
    using Cons.IH[OF st(6), of "acc @ [?r]"] by blast
  show ?case
    unfolding email_batch_loop_step
    using IH(1) email_steps_ok_append[OF one IH(2)]
    by (intro exI[of _ "(?r, evs, new) # steps"]) simp
qed

lemma email_bulk_loop_total:
  assumes "0 < bs" "0 \<le> i" "wf_world w"
  shows "\<exists>batches steps w'.
           sendBulkEmails_loop A emails tid prov bs delay i acc w = Some (acc @ batches, w') \<and>
           concat batches = map fst steps \<and>
           email_steps_ok tid prov (drop (nat i) emails) steps w w'"
  using assms(2,3)
proof (induction "length emails - nat i" arbitrary: i acc w rule: less_induct)
  case less
  show ?case
  proof (cases "i < int (length emails)")
    case False
    then have "drop (nat i) emails = []" by simp
    then show ?thesis
      using False less.prems
      by (subst sendBulkEmails_loop.simps) (auto simp: email_steps_ok_def intro!: exI[of _ "[]"])
  next
    case True
    let ?batch = "slice_js emails i (i + bs)"
    let ?res = "processEmailBatch A ?batch tid prov w"
    let ?w2 = "if i + bs < int (length emails) then pause delay (snd ?res) else snd ?res"
    have batch: "?batch = take (nat bs) (drop (nat i) emails)"
      using slice_js_chunk[OF less.prems(1) True assms(1)] .
    obtain steps1 where b1: "fst ?res = map fst steps1"
        "email_steps_ok tid prov ?batch steps1 w (snd ?res)"
      using email_batch_loop_ok[OF less.prems(2), of A ?batch tid prov "[]"]
      by (auto simp: processEmailBatch_def)
    have b2: "email_steps_ok tid prov ?batch steps1 w ?w2"
      using b1(2) by (auto intro: email_steps_ok_pause)
    then have wf2: "wf_world ?w2" by (simp add: email_steps_ok_def)
    have m: "length emails - nat (i + bs) < length emails - nat i"
      using True less.prems(1) assms(1) by linarith
    obtain batches steps w' where IH:
        "sendBulkEmails_loop A emails tid prov bs delay (i + bs) ((acc @ [fst ?res]) @ []) ?w2
           = Some (((acc @ [fst ?res]) @ []) @ batches, w')"
        "concat batches = map fst steps"
        "email_steps_ok tid prov (drop (nat (i + bs)) emails) steps ?w2 w'"
      using less.hyps[OF m _ wf2, of "(acc @ [fst ?res]) @ []"] less.prems(1) assms(1) by force
    have d: "drop (nat (i + bs)) emails = drop (nat bs) (drop (nat i) emails)"
      using less.prems(1) assms(1) by (simp add: nat_add_distrib add.commute)
    have split: "?batch @ drop (nat (i + bs)) emails = drop (nat i) emails"
      unfolding batch d by (rule append_take_drop_id)
    have all: "email_steps_ok tid prov (drop (nat i) emails) (steps1 @ steps) w w'"
      using email_steps_ok_append[OF b2 IH(3)] unfolding split .
    have eq: "sendBulkEmails_loop A emails tid prov bs delay i acc w
        = sendBulkEmails_loop A emails tid prov bs delay (i + bs) (acc @ [fst ?res]) ?w2"
      using True by (subst sendBulkEmails_loop.simps) (simp split: prod.splits)
    show ?thesis
      unfolding eq using IH(1,2) b1(1) all
      by (intro exI[of _ "fst ?res # batches"] exI[of _ "steps1 @ steps"] exI[of _ w']) simp
  qed
qed

lemma email_bulk_loop_returns:
  assumes "sendBulkEmails_loop A emails tid prov bs delay i acc w = Some y"
  shows "i < int (length emails) \<longrightarrow> 0 < bs"
proof (rule sendBulkEmails_loop.raw_induct[where P = "\<lambda>A emails tid prov bs delay i acc w y. i < int (length emails) \<longrightarrow> 0 < bs", OF _ assms], goal_cases)
  case (1 f A emails tid prov bs delay i acc w y)
  show ?case
  proof (intro impI, rule ccontr)
    assume lt: "i < int (length emails)" and "\<not> 0 < bs"
    then have lt2: "i + bs < int (length emails)" by simp
    have "\<exists>rs w1. f A emails tid prov bs delay (i + bs) (acc @ [rs]) w1 = Some y"
      using 1(2) lt by (auto split: prod.splits)
    then show False using 1(1) lt2 \<open>\<not> 0 < bs\<close> by blast
  qed
qed


lemma email_item_step_email [simp]: "b_email (fst (email_item_step A tid prov email w)) = email"
  by (simp add: email_item_step_def email_bulk_ok_def email_bulk_failed_def split: prod.splits sum.splits)





lemma email_bulk_loop_terminates:
  assumes "0 < bs" "0 \<le> i"
  shows "sendBulkEmails_loop A emails tid prov bs delay i acc w \<noteq> None"
  using assms(2)
proof (induction "length emails - nat i" arbitrary: i acc w rule: less_induct)
  case less
  show ?case
  proof (cases "i < int (length emails)")
    case False
    then show ?thesis by (subst sendBulkEmails_loop.simps) simp
  next
    case True
    have m: "length emails - nat (i + bs) < length emails - nat i"
      using True less.prems assms(1) by linarith
    have "0 \<le> i + bs" using less.prems assms(1) by simp
    from less.hyps[OF m this] show ?thesis
      using True by (subst sendBulkEmails_loop.simps) (simp split: prod.splits)
  qed
qed

lemma sendBulkEmails_returns:
  "sendBulkEmails A d w \<noteq> None \<longleftrightarrow>
     be_emails d = [] \<or> 0 < (case be_batchSize d of None \<Rightarrow> 10 | Some b \<Rightarrow> b)"
proof
  assume "sendBulkEmails A d w \<noteq> None"
  then obtain y where "sendBulkEmails_loop A (be_emails d) (be_tenantId d) (be_provider d)
             (case be_batchSize d of None \<Rightarrow> 10 | Some b \<Rightarrow> b)
             (case be_delay d of None \<Rightarrow> 1000 | Some t \<Rightarrow> t) 0 [] w = Some y"
    by (auto simp: sendBulkEmails_def split: option.splits)
  from email_bulk_loop_returns[OF this]
  show "be_emails d = [] \<or> 0 < (case be_batchSize d of None \<Rightarrow> 10 | Some b \<Rightarrow> b)" by auto
next
  assume h: "be_emails d = [] \<or> 0 < (case be_batchSize d of None \<Rightarrow> 10 | Some b \<Rightarrow> b)"
  have "sendBulkEmails_loop A (be_emails d) (be_tenantId d) (be_provider d)
             (case be_batchSize d of None \<Rightarrow> 10 | Some b \<Rightarrow> b)
             (case be_delay d of None \<Rightarrow> 1000 | Some t \<Rightarrow> t) 0 [] w \<noteq> None"
  proof (cases "be_emails d = []")
    case True
    then show ?thesis by (subst sendBulkEmails_loop.simps) simp
  next
    case False
    then show ?thesis using h by (intro email_bulk_loop_terminates) auto
  qed
  then show "sendBulkEmails A d w \<noteq> None"
    by (auto simp: sendBulkEmails_def Let_def split: option.splits)
qed


lemma sendBulkEmails_steps:
  assumes wf: "wf_world w" and run: "sendBulkEmails A d w = Some (out, w1)"
  shows "\<exists>steps. bo_results out = map fst steps \<and>
           email_steps_ok (be_tenantId d) (be_provider d) (be_emails d) steps w w1"
proof -
  let ?bs = "case be_batchSize d of None \<Rightarrow> 10 | Some b \<Rightarrow> b"
  let ?dl = "case be_delay d of None \<Rightarrow> 1000 | Some t \<Rightarrow> t"
  obtain batches where l: "sendBulkEmails_loop A (be_emails d) (be_tenantId d) (be_provider d)
             ?bs ?dl 0 [] w = Some (batches, w1)"
      and r: "bo_results out = concat batches"
    using run by (auto simp: sendBulkEmails_def Let_def split: option.splits)
  show ?thesis
  proof (cases "be_emails d = []")
    case True
    then have "batches = [] \<and> w1 = w" using l by (subst (asm) sendBulkEmails_loop.simps) simp
    then show ?thesis using True r wf by (intro exI[of _ "[]"]) (simp add: email_steps_ok_def)
  next
    case False
    then have "0 < ?bs" using email_bulk_loop_returns[OF l] by simp
    from email_bulk_loop_total[OF this _ wf, of 0 A "be_emails d" "be_tenantId d" "be_provider d" ?dl "[]"]
    show ?thesis using l r by auto
  qed
qed





subsection \<open>Bulk SMS\<close>

lemma sms_batch_loop_step:
  "processSmsBatch_loop A (phoneNumber # phoneNumbers) msg tid prov acc w =
   processSmsBatch_loop A phoneNumbers msg tid prov (acc @ [fst (sms_item_step A msg tid prov phoneNumber w)])
     (snd (sms_item_step A msg tid prov phoneNumber w))"
  by (simp add: sms_item_step_def split: prod.splits sum.splits)

lemma sms_item_step_ok:
  assumes wf: "wf_world w"
  shows "\<exists>evs new. sms_item_ok msg tid prov phoneNumber (fst (sms_item_step A msg tid prov phoneNumber w), evs, new) \<and>
           trace (snd (sms_item_step A msg tid prov phoneNumber w)) = trace w @ evs \<and>
           logs (snd (sms_item_step A msg tid prov phoneNumber w)) = logs w @ new \<and>
           seq (snd (sms_item_step A msg tid prov phoneNumber w)) = seq w + length new \<and>
           list_all (\<lambda>l. row_id l = seq w) new \<and>
           now (snd (sms_item_step A msg tid prov phoneNumber w)) = now w \<and>
           tenants (snd (sms_item_step A msg tid prov phoneNumber w)) = tenants w \<and>
           wf_world (snd (sms_item_step A msg tid prov phoneNumber w))"
proof (cases "tid \<in> set (tenants w)")
  case False
  then have "sendSms A (sms_of_number phoneNumber msg tid prov) w =
     (Inl (StoreError ''Foreign key constraint violated: SmsLog_tenantId_fkey''), w)"
    by (intro sendSms_no_tenant) (simp add: sms_of_number_def)
  then show ?thesis
    using wf by (intro exI[of _ "[]"]) (simp add: sms_item_step_def sms_bulk_failed_def)
next
  case True
  let ?d = "sms_of_number phoneNumber msg tid prov"
  obtain out v where A: "A (vendor w) (sms_request_of ?d) = (out, v)" by fastforce
  have ten: "s_tenantId ?d \<in> set (tenants w)" using True by (simp add: sms_of_number_def)
  note run = sendSms_run[of w ?d A out v, OF wf ten A]
  let ?L = "new_sms_log ?d w"
  have wf': "wf_world (w\<lparr>logs := logs w @ [set_status s e (now w) ?L], seq := Suc (seq w), vendor := v,
        trace := t\<rparr>)" for s e t
    using wf wf_fresh[OF wf] by (auto simp: wf_world_def list_all_iff)
  show ?thesis
  proof (cases out)
    case (Inl err)
    have step: "sms_item_step A msg tid prov phoneNumber w = (sms_bulk_failed phoneNumber err,
       w\<lparr>logs := logs w @ [set_status ''failed'' (Some (error_message err)) (now w) ?L],
        seq := Suc (seq w), vendor := v,
        trace := trace w @ [LogCreated ?L, AdapterCalled (sms_request_of ?d) (logs w @ [?L]),
                            StatusUpdated (seq w) ''pending'' ''failed'']\<rparr>)"
      unfolding sms_item_step_def run using Inl by (simp add: outcome_status_def outcome_error_def)
    show ?thesis
      unfolding step
      apply (rule exI[of _ "[LogCreated ?L, AdapterCalled (sms_request_of ?d) (logs w @ [?L]),
               StatusUpdated (seq w) ''pending'' ''failed'']"])
      apply (rule exI[of _ "[set_status ''failed'' (Some (error_message err)) (now w) ?L]"])
      using wf' by (simp add: sms_bulk_failed_def new_sms_log_def sms_of_number_def set_status_def)
  next
    case (Inr result)
    have step: "sms_item_step A msg tid prov phoneNumber w =
      (sms_bulk_ok phoneNumber \<lparr>k_smsLogId = seq w, k_messageId = r_messageId result,
                              k_provider = r_provider result\<rparr>,
       w\<lparr>logs := logs w @ [set_status ''sent'' None (now w) ?L],
        seq := Suc (seq w), vendor := v,
        trace := trace w @ [LogCreated ?L, AdapterCalled (sms_request_of ?d) (logs w @ [?L]),
                            StatusUpdated (seq w) ''pending'' ''sent'']\<rparr>)"
      unfolding sms_item_step_def run using Inr by (simp add: outcome_status_def outcome_error_def)
    show ?thesis
      unfolding step
      apply (rule exI[of _ "[LogCreated ?L, AdapterCalled (sms_request_of ?d) (logs w @ [?L]),
               StatusUpdated (seq w) ''pending'' ''sent'']"])
      apply (rule exI[of _ "[set_status ''sent'' None (now w) ?L]"])
      using wf' by (simp add: sms_bulk_ok_def new_sms_log_def sms_of_number_def set_status_def)
  qed
qed


lemma sms_steps_ok_append:
  "sms_steps_ok msg tid prov xs s1 w w1 \<Longrightarrow> sms_steps_ok msg tid prov ys s2 w1 w2 \<Longrightarrow>
   sms_steps_ok msg tid prov (xs @ ys) (s1 @ s2) w w2"
  by (auto simp: sms_steps_ok_def intro: list_all2_appendI)

lemma sms_steps_ok_pause:
  "sms_steps_ok msg tid prov xs s w w1 \<Longrightarrow> sms_steps_ok msg tid prov xs s w (pause delay w1)"
  unfolding sms_steps_ok_def wf_world_pause by (auto simp: pause_def)

lemma sms_batch_loop_ok:
  assumes "wf_world w"
  shows "\<exists>steps. fst (processSmsBatch_loop A items msg tid prov acc w) = acc @ map fst steps \<and>
           sms_steps_ok msg tid prov items steps w (snd (processSmsBatch_loop A items msg tid prov acc w))"
  using assms
proof (induction items arbitrary: acc w)
  case Nil
  then show ?case by (simp add: sms_steps_ok_def)
next
  case (Cons phoneNumber items)
  let ?r = "fst (sms_item_step A msg tid prov phoneNumber w)"
  let ?w1 = "snd (sms_item_step A msg tid prov phoneNumber w)"
  obtain evs new where st: "sms_item_ok msg tid prov phoneNumber (?r, evs, new)"
      "trace ?w1 = trace w @ evs" "logs ?w1 = logs w @ new" "now ?w1 = now w"
      "tenants ?w1 = tenants w" "wf_world ?w1"
    using sms_item_step_ok[OF Cons.prems, of msg tid prov phoneNumber A] by blast
  then have one: "sms_steps_ok msg tid prov [phoneNumber] [(?r, evs, new)] w ?w1"
    by (simp add: sms_steps_ok_def)
  obtain steps where IH: "fst (processSmsBatch_loop A items msg tid prov (acc @ [?r]) ?w1)
        = (acc @ [?r]) @ map fst steps"
      "sms_steps_ok msg tid prov items steps ?w1 (snd (processSmsBatch_loop A items msg tid prov (acc @ [?r]) ?w1))"
    using Cons.IH[OF st(6), of "acc @ [?r]"] by blast
  show ?case
    unfolding sms_batch_loop_step
    using IH(1) sms_steps_ok_append[OF one IH(2)]
    by (intro exI[of _ "(?r, evs, new) # steps"]) simp
qed

lemma sms_bulk_loop_total:
  assumes "0 < bs" "0 \<le> i" "wf_world w"
  shows "\<exists>batches steps w'.
           sendBulkSms_loop A phoneNumbers msg tid prov bs delay i acc w = Some (acc @ batches, w') \<and>
           concat batches = map fst steps \<and>
           sms_steps_ok msg tid prov (drop (nat i) phoneNumbers) steps w w'"
  using assms(2,3)
proof (induction "length phoneNumbers - nat i" arbitrary: i acc w rule: less_induct)
  case less
  show ?case
  proof (cases "i < int (length phoneNumbers)")
    case False
    then have "drop (nat i) phoneNumbers = []" by simp
    then show ?thesis
      using False less.prems
      by (subst sendBulkSms_loop.simps) (auto simp: sms_steps_ok_def intro!: exI[of _ "[]"])
  next
    case True
    let ?batch = "slice_js phoneNumbers i (i + bs)"
    let ?res = "processSmsBatch A ?batch msg tid prov w"
    let ?w2 = "if i + bs < int (length phoneNumbers) then pause delay (snd ?res) else snd ?res"
    have batch: "?batch = take (nat bs) (drop (nat i) phoneNumbers)"
      using slice_js_chunk[OF less.prems(1) True assms(1)] .
    obtain steps1 where b1: "fst ?res = map fst steps1"
        "sms_steps_ok msg tid prov ?batch steps1 w (snd ?res)"
      using sms_batch_loop_ok[OF less.prems(2), of A ?batch msg tid prov "[]"]
      by (auto simp: processSmsBatch_def)
    have b2: "sms_steps_ok msg tid prov ?batch steps1 w ?w2"
      using b1(2) by (auto intro: sms_steps_ok_pause)
    then have wf2: "wf_world ?w2" by (simp add: sms_steps_ok_def)
    have m: "length phoneNumbers - nat (i + bs) < length phoneNumbers - nat i"
      using True less.prems(1) assms(1) by linarith
    obtain batches steps w' where IH:
        "sendBulkSms_loop A phoneNumbers msg tid prov bs delay (i + bs) ((acc @ [fst ?res]) @ []) ?w2
           = Some (((acc @ [fst ?res]) @ []) @ batches, w')"
        "concat batches = map fst steps"
        "sms_steps_ok msg tid prov (drop (nat (i + bs)) phoneNumbers) steps ?w2 w'"
      using less.hyps[OF m _ wf2, of "(acc @ [fst ?res]) @ []"] less.prems(1) assms(1) by force
    have d: "drop (nat (i + bs)) phoneNumbers = drop (nat bs) (drop (nat i) phoneNumbers)"
      using less.prems(1) assms(1) by (simp add: nat_add_distrib add.commute)
    have split: "?batch @ drop (nat (i + bs)) phoneNumbers = drop (nat i) phoneNumbers"
      unfolding batch d by (rule append_take_drop_id)
    have all: "sms_steps_ok msg tid prov (drop (nat i) phoneNumbers) (steps1 @ steps) w w'"
      using sms_steps_ok_append[OF b2 IH(3)] unfolding split .
    have eq: "sendBulkSms_loop A phoneNumbers msg tid prov bs delay i acc w
        = sendBulkSms_loop A phoneNumbers msg tid prov bs delay (i + bs) (acc @ [fst ?res]) ?w2"
      using True by (subst sendBulkSms_loop.simps) (simp split: prod.splits)
    show ?thesis
      unfolding eq using IH(1,2) b1(1) all
      by (intro exI[of _ "fst ?res # batches"] exI[of _ "steps1 @ steps"] exI[of _ w']) simp
  qed
qed

lemma sms_bulk_loop_returns:
  assumes "sendBulkSms_loop A phoneNumbers msg tid prov bs delay i acc w = Some y"
  shows "i < int (length phoneNumbers) \<longrightarrow> 0 < bs"
proof (rule sendBulkSms_loop.raw_induct[where P = "\<lambda>A phoneNumbers msg tid prov bs delay i acc w y. i < int (length phoneNumbers) \<longrightarrow> 0 < bs", OF _ assms], goal_cases)
  case (1 f A phoneNumbers msg tid prov bs delay i acc w y)
  show ?case
  proof (intro impI, rule ccontr)
    assume lt: "i < int (length phoneNumbers)" and "\<not> 0 < bs"
    then have lt2: "i + bs < int (length phoneNumbers)" by simp
    have "\<exists>rs w1. f A phoneNumbers msg tid prov bs delay (i + bs) (acc @ [rs]) w1 = Some y"
      using 1(2) lt by (auto split: prod.splits)
    then show False using 1(1) lt2 \<open>\<not> 0 < bs\<close> by blast
  qed
qed


lemma sms_item_step_sms [simp]: "n_phoneNumber (fst (sms_item_step A msg tid prov phoneNumber w)) = phoneNumber"
  by (simp add: sms_item_step_def sms_bulk_ok_def sms_bulk_failed_def split: prod.splits sum.splits)





lemma sms_bulk_loop_terminates:
  assumes "0 < bs" "0 \<le> i"
  shows "sendBulkSms_loop A phoneNumbers msg tid prov bs delay i acc w \<noteq> None"
  using assms(2)
proof (induction "length phoneNumbers - nat i" arbitrary: i acc w rule: less_induct)
  case less
  show ?case
  proof (cases "i < int (length phoneNumbers)")
    case False
    then show ?thesis by (subst sendBulkSms_loop.simps) simp
  next
    case True
    have m: "length phoneNumbers - nat (i + bs) < length phoneNumbers - nat i"
      using True less.prems assms(1) by linarith
    have "0 \<le> i + bs" using less.prems assms(1) by simp
    from less.hyps[OF m this] show ?thesis
      using True by (subst sendBulkSms_loop.simps) (simp split: prod.splits)
  qed
qed

lemma sendBulkSms_returns:
  "sendBulkSms A d w \<noteq> None \<longleftrightarrow>
     bs_phoneNumbers d = [] \<or> 0 < (case bs_batchSize d of None \<Rightarrow> 10 | Some b \<Rightarrow> b)"
proof
  assume "sendBulkSms A d w \<noteq> None"
  then obtain y where "sendBulkSms_loop A (bs_phoneNumbers d) (bs_message d) (bs_tenantId d) (bs_provider d)
             (case bs_batchSize d of None \<Rightarrow> 10 | Some b \<Rightarrow> b)
             (case bs_delay d of None \<Rightarrow> 1000 | Some t \<Rightarrow> t) 0 [] w = Some y"
    by (auto simp: sendBulkSms_def split: option.splits)
  from sms_bulk_loop_returns[OF this]
  show "bs_phoneNumbers d = [] \<or> 0 < (case bs_batchSize d of None \<Rightarrow> 10 | Some b \<Rightarrow> b)" by auto
next
  assume h: "bs_phoneNumbers d = [] \<or> 0 < (case bs_batchSize d of None \<Rightarrow> 10 | Some b \<Rightarrow> b)"
  have "sendBulkSms_loop A (bs_phoneNumbers d) (bs_message d) (bs_tenantId d) (bs_provider d)
             (case bs_batchSize d of None \<Rightarrow> 10 | Some b \<Rightarrow> b)
             (case bs_delay d of None \<Rightarrow> 1000 | Some t \<Rightarrow> t) 0 [] w \<noteq> None"
  proof (cases "bs_phoneNumbers d = []")
    case True
    then show ?thesis by (subst sendBulkSms_loop.simps) simp
  next
    case False
    then show ?thesis using h by (intro sms_bulk_loop_terminates) auto
  qed
  then show "sendBulkSms A d w \<noteq> None"
    by (auto simp: sendBulkSms_def Let_def split: option.splits)
qed


lemma sendBulkSms_steps:
  assumes wf: "wf_world w" and run: "sendBulkSms A d w = Some (out, w1)"
  shows "\<exists>steps. so_results out = map fst steps \<and>
           sms_steps_ok (bs_message d) (bs_tenantId d) (bs_provider d) (bs_phoneNumbers d) steps w w1"
proof -
  let ?bs = "case bs_batchSize d of None \<Rightarrow> 10 | Some b \<Rightarrow> b"
  let ?dl = "case bs_delay d of None \<Rightarrow> 1000 | Some t \<Rightarrow> t"
  obtain batches where l: "sendBulkSms_loop A (bs_phoneNumbers d) (bs_message d) (bs_tenantId d) (bs_provider d)
             ?bs ?dl 0 [] w = Some (batches, w1)"
      and r: "so_results out = concat batches"
    using run by (auto simp: sendBulkSms_def Let_def split: option.splits)
  show ?thesis
  proof (cases "bs_phoneNumbers d = []")
    case True
    then have "batches = [] \<and> w1 = w" using l by (subst (asm) sendBulkSms_loop.simps) simp
    then show ?thesis using True r wf by (intro exI[of _ "[]"]) (simp add: sms_steps_ok_def)
  next
    case False
    then have "0 < ?bs" using sms_bulk_loop_returns[OF l] by simp
    from sms_bulk_loop_total[OF this _ wf, of 0 A "bs_phoneNumbers d" "bs_message d" "bs_tenantId d" "bs_provider d" ?dl "[]"]
    show ?thesis using l r by auto
  qed
qed







section \<open>A bulk send isolates failures and accounts for every item\<close>



section \<open>Bulk results stand in input order\<close>




section \<open>The status lifecycle\<close>

lemma lifecycle_kept_refl: "wf_world w \<Longrightarrow> lifecycle_kept w w"
  by (simp add: lifecycle_kept_def list_all_iff)

lemma lifecycle_keptI:
  "wf_world w' \<Longrightarrow> trace w' = trace w @ evs \<Longrightarrow> list_all allowed_event evs \<Longrightarrow>
   (\<And>l. l \<in> set (logs w) \<Longrightarrow> status l = ''sent'' \<Longrightarrow> l \<in> set (logs w')) \<Longrightarrow>
   lifecycle_kept w w'"
  unfolding lifecycle_kept_def list_all_iff by auto

lemma lifecycle_keptD:
  assumes "lifecycle_kept w w'"
  shows "wf_world w'" and "\<exists>evs. trace w' = trace w @ evs \<and> list_all allowed_event evs"
    and "\<And>l. l \<in> set (logs w) \<Longrightarrow> status l = ''sent'' \<Longrightarrow> l \<in> set (logs w')"
  using assms unfolding lifecycle_kept_def list_all_iff by (auto split: if_splits)

lemma lifecycle_kept_trans:
  assumes a: "lifecycle_kept w w1" and b: "lifecycle_kept w1 w2"
  shows "lifecycle_kept w w2"
proof -
  obtain e1 where e1: "trace w1 = trace w @ e1" "list_all allowed_event e1"
    using lifecycle_keptD(2)[OF a] by blast
  obtain e2 where e2: "trace w2 = trace w1 @ e2" "list_all allowed_event e2"
    using lifecycle_keptD(2)[OF b] by blast
  show ?thesis
  proof (rule lifecycle_keptI[where evs = "e1 @ e2"])
    show "wf_world w2" by (rule lifecycle_keptD(1)[OF b])
    show "trace w2 = trace w @ e1 @ e2" using e1 e2 by simp
    show "list_all allowed_event (e1 @ e2)" using e1 e2 by simp
    show "l \<in> set (logs w2)" if "l \<in> set (logs w)" "status l = ''sent''" for l
      using lifecycle_keptD(3)[OF b lifecycle_keptD(3)[OF a that] that(2)] .
  qed
qed


lemma retry_events_allowed: "retry_events i req evs \<Longrightarrow> list_all allowed_event evs"
  by (rule retry_events.elims) auto

lemma retry_steps_allowed:
  "list_all2 (\<lambda>l evs. retry_events (row_id l) (f l) evs) sel steps \<Longrightarrow> list_all allowed_event (concat steps)"
  by (induction rule: list_all2_induct) (auto simp: retry_events_allowed)

lemma email_items_allowed:
  "list_all2 (email_item_ok tid prov) items steps \<Longrightarrow>
   list_all allowed_event (concat (map (\<lambda>s. fst (snd s)) steps))"
proof (induction rule: list_all2_induct)
  case Nil
  then show ?case by simp
next
  case (Cons email items st steps)
  obtain r evs new where st: "st = (r, evs, new)" by (cases st) auto
  have "list_all allowed_event evs"
    using Cons(1) unfolding st by (rule email_item_ok.elims) (auto split: if_splits)
  then show ?case using Cons(3) st by simp
qed

lemma sendEmail_lifecycle:
  assumes wf: "wf_world w"
  shows "lifecycle_kept w (snd (sendEmail A d w))"
proof (cases "e_tenantId d \<in> set (tenants w)")
  case False
  then show ?thesis using wf by (simp add: sendEmail_no_tenant lifecycle_kept_refl)
next
  case True
  obtain out v where A: "A (vendor w) (email_request_of d) = (out, v)" by fastforce
  let ?L = "set_status (outcome_status out) (outcome_error out) (now w) (new_email_log d w)"
  let ?evs = "[LogCreated (new_email_log d w),
               AdapterCalled (email_request_of d) (logs w @ [new_email_log d w]),
               StatusUpdated (seq w) ''pending'' (outcome_status out)]"
  have r: "snd (sendEmail A d w) = w\<lparr>logs := logs w @ [?L], seq := Suc (seq w), vendor := v,
        trace := trace w @ ?evs\<rparr>"
    by (simp add: sendEmail_run[of w d A out v, OF wf True A])
  show ?thesis
  proof (rule lifecycle_keptI[where evs = ?evs])
    show "wf_world (snd (sendEmail A d w))"
      unfolding r using wf wf_fresh[OF wf] by (auto simp: wf_world_def list_all_iff)
    show "trace (snd (sendEmail A d w)) = trace w @ ?evs" by (simp add: r)
    show "list_all allowed_event ?evs" using outcome_status_cases[of out] by auto
    show "l \<in> set (logs (snd (sendEmail A d w)))" if "l \<in> set (logs w)" for l
      using that by (simp add: r)
  qed
qed

lemma sendBulkEmails_lifecycle:
  assumes wf: "wf_world w" and run: "sendBulkEmails A d w = Some (out, w1)"
  shows "lifecycle_kept w w1"
proof -
  obtain steps where s: "email_steps_ok (be_tenantId d) (be_provider d) (be_emails d) steps w w1"
    using sendBulkEmails_steps[OF wf run] by blast
  show ?thesis
  proof (rule lifecycle_keptI[where evs = "concat (map (\<lambda>s. fst (snd s)) steps)"])
    show "wf_world w1" using s by (simp add: email_steps_ok_def)
    show "trace w1 = trace w @ concat (map (\<lambda>s. fst (snd s)) steps)"
      using s by (simp add: email_steps_ok_def)
    show "list_all allowed_event (concat (map (\<lambda>s. fst (snd s)) steps))"
      using s by (intro email_items_allowed[of "be_tenantId d" "be_provider d" "be_emails d"])
                 (simp add: email_steps_ok_def)
    show "l \<in> set (logs w1)" if "l \<in> set (logs w)" for l
      using s that by (simp add: email_steps_ok_def)
  qed
qed

lemma retryFailedEmails_lifecycle:
  assumes wf: "wf_world w"
  shows "lifecycle_kept w (snd (retryFailedEmails A limit w))"
proof -
  let ?sel = "getFailedEmailLogsForRetry (limit_or_50 limit) w"
  let ?w1 = "snd (retryFailedEmails A limit w)"
  note p = retry_email_sweep_props[OF wf, of limit A]
  have ids: "map row_id (logs ?w1) = map row_id (logs w)" "seq ?w1 = seq w" using p by simp_all
  have wf1: "wf_world ?w1" by (rule wf_world_cong[OF ids wf])
  obtain steps where st: "trace ?w1 = trace w @ concat steps"
      "list_all2 (\<lambda>l evs. retry_events (row_id l) (retry_email_request l) evs) ?sel steps"
    using p by blast
  have al: "list_all allowed_event (concat steps)" using retry_steps_allowed[OF st(2)] .
  have failed: "\<forall>l \<in> set ?sel. status l = ''failed''" using p by (simp add: list_all_iff)
  have keep: "\<forall>r \<in> set (logs w). r \<notin> set ?sel \<longrightarrow> r \<in> set (logs ?w1)" using p by blast
  show ?thesis
  proof (rule lifecycle_keptI[OF wf1 st(1) al])
    show "l \<in> set (logs ?w1)" if "l \<in> set (logs w)" "status l = ''sent''" for l
      using failed keep that by auto
  qed
qed

lemma email_op_lifecycle:
  "wf_world w \<Longrightarrow> email_op A x w = Some w1 \<Longrightarrow> lifecycle_kept w w1"
proof (cases x)
  case (SendOne d)
  assume "wf_world w" "email_op A x w = Some w1"
  then show ?thesis using SendOne sendEmail_lifecycle[of w A d] by auto
next
  case (SendBulk d)
  assume "wf_world w" "email_op A x w = Some w1"
  then show ?thesis using SendBulk sendBulkEmails_lifecycle[of w A d] by auto
next
  case (RetryFailed limit)
  assume "wf_world w" "email_op A x w = Some w1"
  then show ?thesis using RetryFailed retryFailedEmails_lifecycle[of w A limit] by auto
next
  case (Elapse t)
  assume "wf_world w" "email_op A x w = Some w1"
  then show ?thesis using Elapse
    by (intro lifecycle_keptI[where evs = "[]"]) (auto simp: wf_world_def)
qed

lemma email_ops_lifecycle:
  "wf_world w \<Longrightarrow> email_ops A xs w = Some w1 \<Longrightarrow> lifecycle_kept w w1"
proof (induction xs arbitrary: w)
  case Nil
  then show ?case by (simp add: lifecycle_kept_refl)
next
  case (Cons x xs)
  then obtain w0 where s: "email_op A x w = Some w0" "email_ops A xs w0 = Some w1"
    by (auto split: option.splits)
  have k: "lifecycle_kept w w0" using email_op_lifecycle[OF Cons.prems(1) s(1)] .
  then have "wf_world w0" by (rule lifecycle_keptD(1))
  from lifecycle_kept_trans[OF k Cons.IH[OF this s(2)]] show ?case .
qed

lemma email_ops_return:
  "list_all email_op_returns xs \<Longrightarrow> email_ops A xs w \<noteq> None"
proof (induction xs arbitrary: w)
  case Nil
  then show ?case by simp
next
  case (Cons x xs)
  have "email_op A x w \<noteq> None"
    using Cons.prems sendBulkEmails_returns[of A _ w] by (cases x) auto
  then show ?case using Cons by (auto split: option.splits)
qed

lemma sms_items_allowed:
  "list_all2 (sms_item_ok msg tid prov) items steps \<Longrightarrow>
   list_all allowed_event (concat (map (\<lambda>s. fst (snd s)) steps))"
proof (induction rule: list_all2_induct)
  case Nil
  then show ?case by simp
next
  case (Cons phoneNumber items st steps)
  obtain r evs new where st: "st = (r, evs, new)" by (cases st) auto
  have "list_all allowed_event evs"
    using Cons(1) unfolding st by (rule sms_item_ok.elims) (auto split: if_splits)
  then show ?case using Cons(3) st by simp
qed

lemma sendSms_lifecycle:
  assumes wf: "wf_world w"
  shows "lifecycle_kept w (snd (sendSms A d w))"
proof (cases "s_tenantId d \<in> set (tenants w)")
  case False
  then show ?thesis using wf by (simp add: sendSms_no_tenant lifecycle_kept_refl)
next
  case True
  obtain out v where A: "A (vendor w) (sms_request_of d) = (out, v)" by fastforce
  let ?L = "set_status (outcome_status out) (outcome_error out) (now w) (new_sms_log d w)"
  let ?evs = "[LogCreated (new_sms_log d w),
               AdapterCalled (sms_request_of d) (logs w @ [new_sms_log d w]),
               StatusUpdated (seq w) ''pending'' (outcome_status out)]"
  have r: "snd (sendSms A d w) = w\<lparr>logs := logs w @ [?L], seq := Suc (seq w), vendor := v,
        trace := trace w @ ?evs\<rparr>"
    by (simp add: sendSms_run[of w d A out v, OF wf True A])
  show ?thesis
  proof (rule lifecycle_keptI[where evs = ?evs])
    show "wf_world (snd (sendSms A d w))"
      unfolding r using wf wf_fresh[OF wf] by (auto simp: wf_world_def list_all_iff)
    show "trace (snd (sendSms A d w)) = trace w @ ?evs" by (simp add: r)
    show "list_all allowed_event ?evs" using outcome_status_cases[of out] by auto
    show "l \<in> set (logs (snd (sendSms A d w)))" if "l \<in> set (logs w)" for l
      using that by (simp add: r)
  qed
qed

lemma sendBulkSms_lifecycle:
  assumes wf: "wf_world w" and run: "sendBulkSms A d w = Some (out, w1)"
  shows "lifecycle_kept w w1"
proof -
  obtain steps where s: "sms_steps_ok (bs_message d) (bs_tenantId d) (bs_provider d) (bs_phoneNumbers d) steps w w1"
    using sendBulkSms_steps[OF wf run] by blast
  show ?thesis
  proof (rule lifecycle_keptI[where evs = "concat (map (\<lambda>s. fst (snd s)) steps)"])
    show "wf_world w1" using s by (simp add: sms_steps_ok_def)
    show "trace w1 = trace w @ concat (map (\<lambda>s. fst (snd s)) steps)"
      using s by (simp add: sms_steps_ok_def)
    show "list_all allowed_event (concat (map (\<lambda>s. fst (snd s)) steps))"
      using s by (intro sms_items_allowed[of "bs_message d" "bs_tenantId d" "bs_provider d" "bs_phoneNumbers d"])
                 (simp add: sms_steps_ok_def)
    show "l \<in> set (logs w1)" if "l \<in> set (logs w)" for l
      using s that by (simp add: sms_steps_ok_def)
  qed
qed

lemma retryFailedSms_lifecycle:
  assumes wf: "wf_world w"
  shows "lifecycle_kept w (snd (retryFailedSms A limit w))"
proof -
  let ?sel = "getFailedSmsLogsForRetry (limit_or_50 limit) w"
  let ?w1 = "snd (retryFailedSms A limit w)"
  note p = retry_sms_sweep_props[OF wf, of limit A]
  have ids: "map row_id (logs ?w1) = map row_id (logs w)" "seq ?w1 = seq w" using p by simp_all
  have wf1: "wf_world ?w1" by (rule wf_world_cong[OF ids wf])
  obtain steps where st: "trace ?w1 = trace w @ concat steps"
      "list_all2 (\<lambda>l evs. retry_events (row_id l) (retry_sms_request l) evs) ?sel steps"
    using p by blast
  have al: "list_all allowed_event (concat steps)" using retry_steps_allowed[OF st(2)] .
  have failed: "\<forall>l \<in> set ?sel. status l = ''failed''" using p by (simp add: list_all_iff)
  have keep: "\<forall>r \<in> set (logs w). r \<notin> set ?sel \<longrightarrow> r \<in> set (logs ?w1)" using p by blast
  show ?thesis
  proof (rule lifecycle_keptI[OF wf1 st(1) al])
    show "l \<in> set (logs ?w1)" if "l \<in> set (logs w)" "status l = ''sent''" for l
      using failed keep that by auto
  qed
qed

lemma sms_op_lifecycle:
  "wf_world w \<Longrightarrow> sms_op A x w = Some w1 \<Longrightarrow> lifecycle_kept w w1"
proof (cases x)
  case (SendOne d)
  assume "wf_world w" "sms_op A x w = Some w1"
  then show ?thesis using SendOne sendSms_lifecycle[of w A d] by auto
next
  case (SendBulk d)
  assume "wf_world w" "sms_op A x w = Some w1"
  then show ?thesis using SendBulk sendBulkSms_lifecycle[of w A d] by auto
next
  case (RetryFailed limit)
  assume "wf_world w" "sms_op A x w = Some w1"
  then show ?thesis using RetryFailed retryFailedSms_lifecycle[of w A limit] by auto
next
  case (Elapse t)
  assume "wf_world w" "sms_op A x w = Some w1"
  then show ?thesis using Elapse
    by (intro lifecycle_keptI[where evs = "[]"]) (auto simp: wf_world_def)
qed

lemma sms_ops_lifecycle:
  "wf_world w \<Longrightarrow> sms_ops A xs w = Some w1 \<Longrightarrow> lifecycle_kept w w1"
proof (induction xs arbitrary: w)
  case Nil
  then show ?case by (simp add: lifecycle_kept_refl)
next
  case (Cons x xs)
  then obtain w0 where s: "sms_op A x w = Some w0" "sms_ops A xs w0 = Some w1"
    by (auto split: option.splits)
  have k: "lifecycle_kept w w0" using sms_op_lifecycle[OF Cons.prems(1) s(1)] .
  then have "wf_world w0" by (rule lifecycle_keptD(1))
  from lifecycle_kept_trans[OF k Cons.IH[OF this s(2)]] show ?case .
qed

lemma sms_ops_return:
  "list_all sms_op_returns xs \<Longrightarrow> sms_ops A xs w \<noteq> None"
proof (induction xs arbitrary: w)
  case Nil
  then show ?case by simp
next
  case (Cons x xs)
  have "sms_op A x w \<noteq> None"
    using Cons.prems sendBulkSms_returns[of A _ w] by (cases x) auto
  then show ?case using Cons by (auto split: option.splits)
qed



lemmas ops_eval = sendEmail_def createEmailLog_def sendSms_def createSmsLog_def call_adapter_def
  updateEmailLogStatus_def updateSmsLogStatus_def update_row_def sendEmail_catch_def
  sendSms_catch_def emit_def status_or_pending_def set_status_def
  retryFailedEmails_def getFailedEmailLogsForRetry_def retryFailedSms_def
  getFailedSmsLogsForRetry_def failed_since_def limit_or_50_def retryEmail_try_def
  retrySms_try_def flaky_adapter_def flaky_email_world_def flaky_sms_world_def demo_email_def
  demo_sms_def wf_world_def Let_def

text \<open>
  Claim C3. Start from a table with unique ids and run any sequence of \<open>sendEmail\<close>,
  \<open>sendBulkEmails\<close> and \<open>retryFailedEmails\<close> calls (of \<open>sendSms\<close>, \<open>sendBulkSms\<close> and
  \<open>retryFailedSms\<close> calls), with time passing in between. Every status change the run
  writes is \<open>pending\<close> to \<open>sent\<close>, \<open>pending\<close> to \<open>failed\<close> or \<open>failed\<close> to \<open>pending\<close>; and a
  row that is \<open>sent\<close> at some point of the run stands unchanged in the table at every
  later point. A run returns when each of its bulk sends has an empty input or a positive
  batch size.
\<close>

theorem C3_status_lifecycle:
  "(wf_world w \<and> email_ops A xs w = Some w1 \<and> email_ops A ys w1 = Some w2 \<longrightarrow>
      (\<exists>evs. trace w2 = trace w @ evs \<and> list_all allowed_event evs) \<and>
      (\<forall>l \<in> set (logs w1). status l = ''sent'' \<longrightarrow> l \<in> set (logs w2)))
   \<and> (list_all email_op_returns zs \<longrightarrow> email_ops A zs w \<noteq> None)
   \<and> (wf_world w' \<and> sms_ops A' xs' w' = Some w1' \<and> sms_ops A' ys' w1' = Some w2' \<longrightarrow>
      (\<exists>evs. trace w2' = trace w' @ evs \<and> list_all allowed_event evs) \<and>
      (\<forall>l \<in> set (logs w1'). status l = ''sent'' \<longrightarrow> l \<in> set (logs w2')))
   \<and> (list_all sms_op_returns zs' \<longrightarrow> sms_ops A' zs' w' \<noteq> None)"
proof (intro conjI impI)
  assume h: "wf_world w \<and> email_ops A xs w = Some w1 \<and> email_ops A ys w1 = Some w2"
  then have a: "lifecycle_kept w w1" using email_ops_lifecycle by blast
  then have b: "lifecycle_kept w1 w2" using h email_ops_lifecycle lifecycle_keptD(1) by blast
  show "\<exists>evs. trace w2 = trace w @ evs \<and> list_all allowed_event evs"
    by (rule lifecycle_keptD(2)[OF lifecycle_kept_trans[OF a b]])
  show "\<forall>l \<in> set (logs w1). status l = ''sent'' \<longrightarrow> l \<in> set (logs w2)"
    using lifecycle_keptD(3)[OF b] by blast
next
  assume "list_all email_op_returns zs"
  then show "email_ops A zs w \<noteq> None" by (rule email_ops_return)
next
  assume h: "wf_world w' \<and> sms_ops A' xs' w' = Some w1' \<and> sms_ops A' ys' w1' = Some w2'"
  then have a: "lifecycle_kept w' w1'" using sms_ops_lifecycle by blast
  then have b: "lifecycle_kept w1' w2'" using h sms_ops_lifecycle lifecycle_keptD(1) by blast
  show "\<exists>evs. trace w2' = trace w' @ evs \<and> list_all allowed_event evs"
    by (rule lifecycle_keptD(2)[OF lifecycle_kept_trans[OF a b]])
  show "\<forall>l \<in> set (logs w1'). status l = ''sent'' \<longrightarrow> l \<in> set (logs w2')"
    using lifecycle_keptD(3)[OF b] by blast
next
  assume "list_all sms_op_returns zs'"
  then show "sms_ops A' zs' w' \<noteq> None" by (rule sms_ops_return)
qed

text \<open>A send fails, a retry sweep turns the row \<open>sent\<close>; a further sweep and a further send
  leave that row alone. The status changes of the whole run are the three of row 1 and the
  one of row 2.\<close>

theorem C3_status_lifecycle_witness:
  "wf_world flaky_email_world
   \<and> email_ops flaky_adapter [SendOne demo_email, RetryFailed None] flaky_email_world \<noteq> None
   \<and> map status (logs (the (email_ops flaky_adapter [SendOne demo_email, RetryFailed None]
         flaky_email_world))) = [''sent'']
   \<and> email_ops flaky_adapter [RetryFailed None, SendOne demo_email, Elapse 5]
        (the (email_ops flaky_adapter [SendOne demo_email, RetryFailed None] flaky_email_world))
       \<noteq> None
   \<and> status_changes (trace (the (email_ops flaky_adapter [RetryFailed None, SendOne demo_email, Elapse 5]
        (the (email_ops flaky_adapter [SendOne demo_email, RetryFailed None] flaky_email_world)))))
       = [(1, ''pending'', ''failed''), (1, ''failed'', ''pending''), (1, ''pending'', ''sent''),
          (2, ''pending'', ''sent'')]
   \<and> list_all email_op_returns [SendOne demo_email, RetryFailed None]
   \<and> wf_world flaky_sms_world
   \<and> sms_ops flaky_adapter [SendOne demo_sms, RetryFailed None] flaky_sms_world \<noteq> None
   \<and> map status (logs (the (sms_ops flaky_adapter [SendOne demo_sms, RetryFailed None]
         flaky_sms_world))) = [''sent'']
   \<and> sms_ops flaky_adapter [RetryFailed None, SendOne demo_sms, Elapse 5]
        (the (sms_ops flaky_adapter [SendOne demo_sms, RetryFailed None] flaky_sms_world))
       \<noteq> None
   \<and> status_changes (trace (the (sms_ops flaky_adapter [RetryFailed None, SendOne demo_sms, Elapse 5]
        (the (sms_ops flaky_adapter [SendOne demo_sms, RetryFailed None] flaky_sms_world)))))
       = [(1, ''pending'', ''failed''), (1, ''failed'', ''pending''), (1, ''pending'', ''sent''),
          (2, ''pending'', ''sent'')]
   \<and> list_all sms_op_returns [SendOne demo_sms, RetryFailed None]"
  using C3_status_lifecycle[where A = flaky_adapter and w = flaky_email_world
      and xs = "[SendOne demo_email, RetryFailed None]"
      and ?w1.0 = "the (email_ops flaky_adapter [SendOne demo_email, RetryFailed None] flaky_email_world)"
      and ys = "[RetryFailed None, SendOne demo_email, Elapse 5]"
      and ?w2.0 = "the (email_ops flaky_adapter [RetryFailed None, SendOne demo_email, Elapse 5]
        (the (email_ops flaky_adapter [SendOne demo_email, RetryFailed None] flaky_email_world)))"
      and zs = "[SendOne demo_email, RetryFailed None]"
      and A' = flaky_adapter and w' = flaky_sms_world
      and xs' = "[SendOne demo_sms, RetryFailed None]"
      and w1' = "the (sms_ops flaky_adapter [SendOne demo_sms, RetryFailed None] flaky_sms_world)"
      and ys' = "[RetryFailed None, SendOne demo_sms, Elapse 5]"
      and w2' = "the (sms_ops flaky_adapter [RetryFailed None, SendOne demo_sms, Elapse 5]
        (the (sms_ops flaky_adapter [SendOne demo_sms, RetryFailed None] flaky_sms_world)))"
      and zs' = "[SendOne demo_sms, RetryFailed None]"]
  by (simp add: ops_eval)

section \<open>Provider clients are built without a credential check\<close>






text \<open>A client that was built is kept: the next call for the same name returns it.\<close>

lemma getClient_cached:
  assumes "fst (SmsConfig_getClient tw env this pr) = Inr c"
  shows "SmsConfig_getClient tw env (snd (SmsConfig_getClient tw env this pr)) pr
           = (Inr c, snd (SmsConfig_getClient tw env this pr))"
proof -
  define n where "n = or_default pr (sms_defaultProvider this)"
  show ?thesis
  proof (cases "map_of (clients this) n")
    case (Some client)
    then show ?thesis
      using assms by (simp add: SmsConfig_getClient_def n_def [symmetric])
  next
    case None
    show ?thesis
    proof (cases "SmsConfig_createClient tw env n (SmsConfig_getProviderConfig env n)")
      case (Inl err)
      then show ?thesis
        using assms None by (simp add: SmsConfig_getClient_def n_def [symmetric] map_add_def)
    next
      case (Inr client)
      then show ?thesis
        using assms None by (simp add: SmsConfig_getClient_def n_def [symmetric] map_add_def)
    qed
  qed
qed

lemma getTransporter_cached:
  assumes "fst (EmailConfig_getTransporter nm env this pr) = Inr c"
  shows "EmailConfig_getTransporter nm env (snd (EmailConfig_getTransporter nm env this pr)) pr
           = (Inr c, snd (EmailConfig_getTransporter nm env this pr))"
proof -
  define n where "n = or_default pr (email_defaultProvider this)"
  show ?thesis
  proof (cases "map_of (transporters this) n")
    case (Some client)
    then show ?thesis
      using assms by (simp add: EmailConfig_getTransporter_def n_def [symmetric])
  next
    case None
    show ?thesis
    proof (cases "EmailConfig_createTransporter nm env n (EmailConfig_getProviderConfig env n)")
      case (Inl err)
      then show ?thesis
        using assms None
        by (simp add: EmailConfig_getTransporter_def n_def [symmetric] map_add_def)
    next
      case (Inr client)
      then show ?thesis
        using assms None
        by (simp add: EmailConfig_getTransporter_def n_def [symmetric] map_add_def)
    qed
  qed
qed





end
